theory Spec2Isabelle
  imports Main "HOL-Library.AList" "HOL-Library.Sublist"
begin

section \<open>Errors, paths and the observable trace\<close>

text \<open>
  A JavaScript \<open>Error\<close> object as the code inspects it: an optional \<open>code\<close>
  property (set by Node on file-system failures, absent on errors built by
  \<open>new Error(...)\<close>) and the \<open>message\<close>.
\<close>

datatype js_error = Error (code: "string option") (message: string)

text \<open>Paths are lists of name components below the root; file contents are strings.\<close>

type_synonym path = "string list"

text \<open>
  What a run leaves behind besides the file system: every back-off delay it slept, the
  locks it was granted and gave back, and the fingerprints and listings it computed.
\<close>

datatype event =
    Slept nat
  | Acquired path
  | Released path
  | Hashed path
  | Listed path

text \<open>The two closures a waiting caller creates in \<open>acquireLock\<close>, by caller.\<close>

datatype callback = Resolve nat | WrappedResolve nat

text \<open>
  The module-level maps \<open>locks\<close> and \<open>lockQueue\<close>. Only the keys of \<open>locks\<close>
  are ever read (\<open>locks.has\<close>), so it is a set of keys.
\<close>

record 'k lock_table =
  locks :: "'k set"
  lockQueue :: "'k \<rightharpoonup> callback list"

definition no_locks :: "'k lock_table" where
  "no_locks = \<lparr>locks = {}, lockQueue = Map.empty\<rparr>"

definition has_lock :: "'k lock_table \<Rightarrow> 'k \<Rightarrow> bool" where
  "has_lock t k \<longleftrightarrow> k \<in> locks t"

definition set_lock :: "'k lock_table \<Rightarrow> 'k \<Rightarrow> 'k lock_table" where
  "set_lock t k = t\<lparr>locks := insert k (locks t)\<rparr>"

definition delete_lock :: "'k lock_table \<Rightarrow> 'k \<Rightarrow> 'k lock_table" where
  "delete_lock t k = t\<lparr>locks := locks t - {k}\<rparr>"

text \<open>\<open>queue = lockQueue.get(path) || []; queue.push(cb); lockQueue.set(path, queue)\<close>\<close>

definition enqueue :: "'k lock_table \<Rightarrow> 'k \<Rightarrow> callback \<Rightarrow> 'k lock_table" where
  "enqueue t k cb =
     t\<lparr>lockQueue := (lockQueue t)(k \<mapsto> (case lockQueue t k of None \<Rightarrow> [] | Some q \<Rightarrow> q) @ [cb])\<rparr>"

text \<open>
  The timer callback: \<open>index = queue.indexOf(resolve); if (index > -1) queue.splice(index, 1)\<close>.
  It looks for the closure it is given and removes its first occurrence.
\<close>

definition timer_splice :: "'k lock_table \<Rightarrow> 'k \<Rightarrow> callback \<Rightarrow> 'k lock_table" where
  "timer_splice t k cb =
     (case lockQueue t k of
        None \<Rightarrow> t
      | Some q \<Rightarrow> t\<lparr>lockQueue := (lockQueue t)(k \<mapsto> remove1 cb q)\<rparr>)"

text \<open>
  \<open>queue = lockQueue.get(path); if (queue && queue.length > 0) { next = queue.shift(); ...;
  if (queue.length === 0) lockQueue.delete(path) }\<close>: the callback taken, if any, and the table.
\<close>

definition shift_queue :: "'k lock_table \<Rightarrow> 'k \<Rightarrow> callback option \<times> 'k lock_table" where
  "shift_queue t k =
     (case lockQueue t k of
        None \<Rightarrow> (None, t)
      | Some [] \<Rightarrow> (None, t)
      | Some (next # rest) \<Rightarrow>
          (Some next,
           t\<lparr>lockQueue := (if rest = [] then (lockQueue t)(k := None) else (lockQueue t)(k \<mapsto> rest))\<rparr>))"

section \<open>The file system\<close>

datatype node = File string | Dir "(string \<times> node) list"

text \<open>
  Everything a run of the module reads or changes: the tree on disk, the lock maps, the
  number of waiter closures created so far, the trace, the bytes \<open>randomBytes\<close> will
  return (as hexadecimal strings, by draw) and how many were drawn, whether
  \<open>process.platform\<close> is \<open>win32\<close>, and the device each directory lives on.
\<close>

record env =
  fs :: node
  tab :: "path lock_table"
  calls :: nat
  trace :: "event list"
  rand :: "nat \<Rightarrow> string"
  drawn :: nat
  win32 :: bool
  dev :: "path \<Rightarrow> nat"

definition sleep :: "nat \<Rightarrow> env \<Rightarrow> env" where
  "sleep ms s = s\<lparr>trace := trace s @ [Slept ms]\<rparr>"

section \<open>withRetry\<close>

definition RETRY_DELAYS :: "nat list" where
  "RETRY_DELAYS = [100, 500, 1000, 2000, 5000]"

definition LOCK_TIMEOUT :: nat where
  "LOCK_TIMEOUT = 30000"

definition digit_char :: "nat \<Rightarrow> char" where
  "digit_char d = ''0123456789'' ! d"

fun string_of_nat :: "nat \<Rightarrow> string" where
  "string_of_nat n =
     (if n < 10 then [digit_char n] else string_of_nat (n div 10) @ [digit_char (n mod 10)])"

declare string_of_nat.simps [simp del]

text \<open>The error codes after which \<open>withRetry\<close> leaves its loop.\<close>

definition is_permanent :: "js_error \<Rightarrow> bool" where
  "is_permanent e \<longleftrightarrow>
     code e = Some ''ENOENT'' \<or> code e = Some ''ENOTDIR'' \<or> code e = Some ''EISDIR''"

text \<open>
  \<open>new Error(`${context} failed after ${maxRetries} retries: ${lastError?.message || 'Unknown error'}`)\<close>
\<close>

definition retry_error :: "string \<Rightarrow> nat \<Rightarrow> js_error option \<Rightarrow> js_error" where
  "retry_error context maxRetries lastError =
     Error None
       (context @ '' failed after '' @ string_of_nat maxRetries @ '' retries: '' @
        (case lastError of
           None \<Rightarrow> ''Unknown error''
         | Some e \<Rightarrow> if message e = [] then ''Unknown error'' else message e))"

text \<open>
  The loop of \<open>withRetry\<close> from index \<open>i\<close>. The operation acts on the environment and
  either returns a value or throws. After a failure that is not the last attempt the
  code sleeps first and looks at the error code second.
\<close>

function withRetry_loop ::
  "nat \<Rightarrow> js_error option \<Rightarrow> (env \<Rightarrow> (js_error + 'a) \<times> env) \<Rightarrow> string \<Rightarrow> nat \<Rightarrow> env
   \<Rightarrow> (js_error + 'a) \<times> env" where
  "withRetry_loop i lastError operation context maxRetries s =
     (if i \<le> maxRetries then
        (case operation s of
           (Inr v, s1) \<Rightarrow> (Inr v, s1)
         | (Inl error, s1) \<Rightarrow>
             if i = maxRetries then (Inl (retry_error context maxRetries (Some error)), s1)
             else
               let delay = RETRY_DELAYS ! min i (length RETRY_DELAYS - 1);
                   s2 = sleep delay s1
               in if is_permanent error
                  then (Inl (retry_error context maxRetries (Some error)), s2)
                  else withRetry_loop (i + 1) (Some error) operation context maxRetries s2)
      else (Inl (retry_error context maxRetries lastError), s))"
  by pat_completeness auto
termination
  by (relation "measure (\<lambda>(i, lastError, operation, context, maxRetries, s). maxRetries + 1 - i)") auto

declare withRetry_loop.simps [simp del]

definition withRetry ::
  "(env \<Rightarrow> (js_error + 'a) \<times> env) \<Rightarrow> string \<Rightarrow> nat \<Rightarrow> env \<Rightarrow> (js_error + 'a) \<times> env" where
  "withRetry operation context maxRetries s = withRetry_loop 0 None operation context maxRetries s"

text \<open>The default of the third parameter: \<open>maxRetries = RETRY_DELAYS.length\<close>.\<close>

definition withRetry_default ::
  "(env \<Rightarrow> (js_error + 'a) \<times> env) \<Rightarrow> string \<Rightarrow> env \<Rightarrow> (js_error + 'a) \<times> env" where
  "withRetry_default operation context s = withRetry operation context (length RETRY_DELAYS) s"

text \<open>An operation whose target has vanished: it throws \<open>ENOENT\<close> whenever it is called.\<close>

definition vanished :: "env \<Rightarrow> (js_error + unit) \<times> env" where
  "vanished s = (Inl (Error (Some ''ENOENT'') ''ENOENT: no such file or directory''), s)"

section \<open>The path lock, task by task\<close>

text \<open>
  How the operating system reads a path string: split at the slashes, drop empty and
  \<open>.\<close> segments, let \<open>..\<close> step up. Two strings name the same file when they
  resolve to the same components.
\<close>

fun split_slash :: "string \<Rightarrow> string \<Rightarrow> string list" where
  "split_slash seg [] = [seg]"
| "split_slash seg (c # cs) =
     (if c = CHR ''/'' then seg # split_slash [] cs else split_slash (seg @ [c]) cs)"

definition norm_step :: "path \<Rightarrow> string \<Rightarrow> path" where
  "norm_step acc seg =
     (if seg = [] \<or> seg = ''.'' then acc else if seg = ''..'' then butlast acc else acc @ [seg])"

definition resolve :: "string \<Rightarrow> path" where
  "resolve p = foldl norm_step [] (split_slash [] p)"

text \<open>\<open>const lockFile = `${path}.lock`\<close>, on the string as passed.\<close>

definition lockFile_name :: "string \<Rightarrow> string" where
  "lockFile_name p = p @ ''.lock''"

text \<open>
  Where a caller of \<open>acquireLock\<close> stands. Between two \<open>await\<close>s a task runs alone, so
  each phase change below is one uninterrupted piece of the function:
  \<open>Queued\<close> waits on the promise whose \<open>wrappedResolve\<close> sits in the queue,
  \<open>Woken\<close> has had that promise resolved and not yet run on,
  \<open>Attempting i\<close> has attempt \<open>i\<close> of the exclusive marker write in flight,
  \<open>Backoff i\<close> sleeps after attempt \<open>i\<close> failed,
  \<open>Holding\<close> has been handed the release function,
  \<open>Unlinking\<close> has called it and waits for the marker's \<open>unlink\<close>,
  \<open>Finished\<close> has released, and \<open>Rejected e\<close> had \<open>acquireLock\<close> throw \<open>e\<close>.
\<close>

datatype phase =
    Idle
  | Queued
  | Woken
  | Attempting nat
  | Backoff nat
  | Holding
  | Unlinking
  | Finished
  | Rejected js_error

record lstate =
  table :: "string lock_table"
  disk :: "path set"
  phase :: "nat \<Rightarrow> phase"
  asked :: "nat \<Rightarrow> string"

definition linit :: lstate where
  "linit = \<lparr>table = no_locks, disk = {}, phase = (\<lambda>c. Idle), asked = (\<lambda>c. [])\<rparr>"

datatype lock_event =
    Call nat string
  | TimerFires nat
  | Continue nat
  | WriteDone nat
  | BackoffOver nat
  | Release nat
  | Unlinked nat

text \<open>
  Calling a queued closure: \<open>wrappedResolve\<close> clears the timer and calls \<open>resolve\<close>;
  resolving a promise that is already settled does nothing.
\<close>

definition settle :: "nat \<Rightarrow> (nat \<Rightarrow> phase) \<Rightarrow> (nat \<Rightarrow> phase)" where
  "settle w ph = (if ph w = Queued then ph(w := Woken) else ph)"

fun invoke :: "callback option \<Rightarrow> (nat \<Rightarrow> phase) \<Rightarrow> (nat \<Rightarrow> phase)" where
  "invoke None ph = ph"
| "invoke (Some (Resolve w)) ph = settle w ph"
| "invoke (Some (WrappedResolve w)) ph = settle w ph"

text \<open>
  \<open>locks.delete(path)\<close>, then the next queued closure is taken and called: the tail of
  both the \<open>catch\<close> block of \<open>acquireLock\<close> and the release function.
\<close>

definition hand_over :: "nat \<Rightarrow> phase \<Rightarrow> lstate \<Rightarrow> lstate" where
  "hand_over c ph s =
     (case shift_queue (delete_lock (table s) (asked s c)) (asked s c) of
        (next, t) \<Rightarrow> s\<lparr>table := t, phase := invoke next ((phase s)(c := ph))\<rparr>)"

definition eexist :: js_error where
  "eexist = Error (Some ''EEXIST'') ''EEXIST: file already exists''"

definition lstep :: "lock_event \<Rightarrow> lstate \<Rightarrow> lstate" where
  "lstep ev s =
     (case ev of
        Call c path \<Rightarrow>
          if phase s c \<noteq> Idle then s
          else if has_lock (table s) path
          then s\<lparr>table := enqueue (table s) path (WrappedResolve c),
                 phase := (phase s)(c := Queued), asked := (asked s)(c := path)\<rparr>
          else s\<lparr>table := set_lock (table s) path,
                 phase := (phase s)(c := Attempting 0), asked := (asked s)(c := path)\<rparr>
      | TimerFires c \<Rightarrow>
          if phase s c \<noteq> Queued then s
          else s\<lparr>table := timer_splice (table s) (asked s c) (Resolve c),
                 phase := (phase s)(c := Rejected (Error None (''Lock timeout: '' @ asked s c)))\<rparr>
      | Continue c \<Rightarrow>
          if phase s c \<noteq> Woken then s
          else s\<lparr>table := set_lock (table s) (asked s c), phase := (phase s)(c := Attempting 0)\<rparr>
      | WriteDone c \<Rightarrow>
          (case phase s c of
             Attempting i \<Rightarrow>
               if resolve (lockFile_name (asked s c)) \<notin> disk s
               then s\<lparr>disk := insert (resolve (lockFile_name (asked s c))) (disk s),
                      phase := (phase s)(c := Holding)\<rparr>
               else if i = 3
               then hand_over c
                      (Rejected (retry_error (''acquiring lock on '' @ asked s c) 3 (Some eexist))) s
               else s\<lparr>phase := (phase s)(c := Backoff i)\<rparr>
           | _ \<Rightarrow> s)
      | BackoffOver c \<Rightarrow>
          (case phase s c of
             Backoff i \<Rightarrow>
               if is_permanent eexist
               then hand_over c
                      (Rejected (retry_error (''acquiring lock on '' @ asked s c) 3 (Some eexist))) s
               else s\<lparr>phase := (phase s)(c := Attempting (i + 1))\<rparr>
           | _ \<Rightarrow> s)
      | Release c \<Rightarrow>
          if phase s c \<noteq> Holding then s
          else s\<lparr>disk := disk s - {resolve (lockFile_name (asked s c))},
                 phase := (phase s)(c := Unlinking)\<rparr>
      | Unlinked c \<Rightarrow>
          if phase s c \<noteq> Unlinking then s else hand_over c Finished s)"

definition lrun :: "lock_event list \<Rightarrow> lstate \<Rightarrow> lstate" where
  "lrun evs s = fold lstep evs s"

definition marker_of :: "lstate \<Rightarrow> nat \<Rightarrow> path" where
  "marker_of s c = resolve (lockFile_name (asked s c))"

definition holders_exclusive :: "lstate \<Rightarrow> bool" where
  "holders_exclusive s \<longleftrightarrow>
     (\<forall>c. phase s c = Holding \<longrightarrow> marker_of s c \<in> disk s) \<and>
     (\<forall>c c'. phase s c = Holding \<and> phase s c' = Holding \<and> marker_of s c = marker_of s c'
        \<longrightarrow> c = c')"

section \<open>File-system calls\<close>

text \<open>
  The tree is read and changed at a path. \<open>put\<close> stores a node below an existing
  directory and \<open>del\<close> removes an entry with everything under it; both leave the tree
  alone where the path does not lead through directories.
\<close>

fun lookup_path :: "node \<Rightarrow> path \<Rightarrow> node option" where
  "lookup_path n [] = Some n"
| "lookup_path (File c) (x # xs) = None"
| "lookup_path (Dir es) (x # xs) =
     (case map_of es x of None \<Rightarrow> None | Some n \<Rightarrow> lookup_path n xs)"

fun put :: "node \<Rightarrow> path \<Rightarrow> node \<Rightarrow> node" where
  "put t [] v = v"
| "put (File c) (x # xs) v = File c"
| "put (Dir es) (x # xs) v =
     (if xs = [] then Dir (AList.update x v es)
      else case map_of es x of
             None \<Rightarrow> Dir es
           | Some n \<Rightarrow> Dir (AList.update x (put n xs v) es))"

fun del :: "node \<Rightarrow> path \<Rightarrow> node" where
  "del t [] = t"
| "del (File c) (x # xs) = File c"
| "del (Dir es) (x # xs) =
     (if xs = [] then Dir (AList.delete x es)
      else case map_of es x of
             None \<Rightarrow> Dir es
           | Some n \<Rightarrow> Dir (AList.update x (del n xs) es))"

definition is_dir :: "node \<Rightarrow> path \<Rightarrow> bool" where
  "is_dir t p \<longleftrightarrow> (\<exists>es. lookup_path t p = Some (Dir es))"

definition errno :: "string \<Rightarrow> js_error" where
  "errno c = Error (Some c) c"

text \<open>\<open>dirname\<close>, \<open>basename\<close> and \<open>join\<close> of \<open>node:path\<close>, on components.\<close>

definition dirname :: "path \<Rightarrow> path" where
  "dirname p = butlast p"

definition basename :: "path \<Rightarrow> string" where
  "basename p = (if p = [] then [] else last p)"

definition join :: "path \<Rightarrow> string \<Rightarrow> path" where
  "join dir name = dir @ [name]"

definition path_string :: "path \<Rightarrow> string" where
  "path_string p = concat (map (\<lambda>x. CHR ''/'' # x) p)"

text \<open>\<open>fs.mkdir(dir, {recursive: true})\<close>\<close>

fun mkdir_p :: "path \<Rightarrow> node \<Rightarrow> js_error + node" where
  "mkdir_p [] (File c) = Inl (errno ''EEXIST'')"
| "mkdir_p (x # xs) (File c) = Inl (errno ''ENOTDIR'')"
| "mkdir_p [] (Dir es) = Inr (Dir es)"
| "mkdir_p (x # xs) (Dir es) =
     (case mkdir_p xs (case map_of es x of None \<Rightarrow> Dir [] | Some n \<Rightarrow> n) of
        Inl e \<Rightarrow> Inl e
      | Inr n \<Rightarrow> Inr (Dir (AList.update x n es)))"

text \<open>
  \<open>fs.writeFile(path, data, {flag})\<close>; \<open>wx\<close> is the exclusive flag \<open>'wx'\<close>, which
  fails when the path exists.
\<close>

definition writeFile :: "path \<Rightarrow> string \<Rightarrow> bool \<Rightarrow> node \<Rightarrow> js_error + node" where
  "writeFile p data wx t =
     (if p = [] then Inl (errno ''EISDIR'')
      else case lookup_path t (dirname p) of
             None \<Rightarrow> Inl (errno ''ENOENT'')
           | Some (File c) \<Rightarrow> Inl (errno ''ENOTDIR'')
           | Some (Dir es) \<Rightarrow>
               (case lookup_path t p of
                  None \<Rightarrow> Inr (put t p (File data))
                | Some (File c) \<Rightarrow> if wx then Inl (errno ''EEXIST'') else Inr (put t p (File data))
                | Some (Dir ds) \<Rightarrow> Inl (errno (if wx then ''EEXIST'' else ''EISDIR''))))"

definition unlink :: "path \<Rightarrow> node \<Rightarrow> js_error + node" where
  "unlink p t =
     (case lookup_path t p of
        None \<Rightarrow> Inl (errno ''ENOENT'')
      | Some (File c) \<Rightarrow> Inr (del t p)
      | Some (Dir es) \<Rightarrow> Inl (errno ''EISDIR''))"

text \<open>\<open>fs.rm(path, {recursive: true, force: true})\<close>: a missing path is no error.\<close>

definition rm_rf :: "path \<Rightarrow> node \<Rightarrow> js_error + node" where
  "rm_rf p t = (if p = [] then Inl (errno ''EBUSY'') else Inr (del t p))"

text \<open>
  \<open>fs.rename\<close>: a file replaces a file, a directory replaces an empty directory, and
  nothing moves into itself.
\<close>

definition rename :: "path \<Rightarrow> path \<Rightarrow> node \<Rightarrow> js_error + node" where
  "rename src dst t =
     (if src = [] \<or> dst = [] then Inl (errno ''EBUSY'')
      else case lookup_path t src of
             None \<Rightarrow> Inl (errno ''ENOENT'')
           | Some n \<Rightarrow>
               (case lookup_path t (dirname dst) of
                  None \<Rightarrow> Inl (errno ''ENOENT'')
                | Some (File c) \<Rightarrow> Inl (errno ''ENOTDIR'')
                | Some (Dir ps) \<Rightarrow>
                    if src = dst then Inr t
                    else if prefix src dst then Inl (errno ''EINVAL'')
                    else (case (n, lookup_path t dst) of
                            (File c, Some (Dir ds)) \<Rightarrow> Inl (errno ''EISDIR'')
                          | (Dir es, Some (File d)) \<Rightarrow> Inl (errno ''ENOTDIR'')
                          | (Dir es, Some (Dir (d # ds))) \<Rightarrow> Inl (errno ''ENOTEMPTY'')
                          | _ \<Rightarrow> Inr (put (del t src) dst n))))"

text \<open>\<open>fs.copyFile(src, dst)\<close>\<close>

definition copyFile :: "path \<Rightarrow> path \<Rightarrow> node \<Rightarrow> js_error + node" where
  "copyFile src dst t =
     (case lookup_path t src of
        None \<Rightarrow> Inl (errno ''ENOENT'')
      | Some (Dir es) \<Rightarrow> Inl (errno ''EISDIR'')
      | Some (File c) \<Rightarrow> writeFile dst c False t)"

text \<open>
  \<open>fs.cp(src, dst, {recursive: true, force: true})\<close>. Entries of the source go over
  those of an existing destination directory.
\<close>

fun overlay :: "node \<Rightarrow> node \<Rightarrow> node"
  and overlay_entries :: "(string \<times> node) list \<Rightarrow> (string \<times> node) list \<Rightarrow> (string \<times> node) list" where
  "overlay (File c) old = File c"
| "overlay (Dir es) (File d) = Dir es"
| "overlay (Dir es) (Dir ds) = Dir (overlay_entries es ds)"
| "overlay_entries [] ds = ds"
| "overlay_entries ((x, n) # es) ds =
     overlay_entries es
       (AList.update x (case map_of ds x of None \<Rightarrow> n | Some old \<Rightarrow> overlay n old) ds)"

definition cp :: "path \<Rightarrow> path \<Rightarrow> node \<Rightarrow> js_error + node" where
  "cp src dst t =
     (case lookup_path t src of
        None \<Rightarrow> Inl (errno ''ENOENT'')
      | Some n \<Rightarrow>
          if dst = [] \<or> prefix src dst then Inl (errno ''ERR_FS_CP_EINVAL'')
          else (case lookup_path t (dirname dst) of
                  None \<Rightarrow> Inl (errno ''ENOENT'')
                | Some (File c) \<Rightarrow> Inl (errno ''ENOTDIR'')
                | Some (Dir ps) \<Rightarrow>
                    (case (n, lookup_path t dst) of
                       (n, None) \<Rightarrow> Inr (put t dst n)
                     | (File c, Some (File d)) \<Rightarrow> Inr (put t dst n)
                     | (File c, Some (Dir ds)) \<Rightarrow> Inl (errno ''ERR_FS_CP_NON_DIR_TO_DIR'')
                     | (Dir es, Some (File d)) \<Rightarrow> Inl (errno ''ERR_FS_CP_DIR_TO_NON_DIR'')
                     | (Dir es, Some (Dir ds)) \<Rightarrow> Inr (put t dst (overlay n (Dir ds))))))"

text \<open>When \<open>rename\<close> cannot fail: the target is absent, or of the same kind and empty.\<close>

fun replaceable :: "node \<Rightarrow> node option \<Rightarrow> bool" where
  "replaceable n None = True"
| "replaceable (File c) (Some (File d)) = True"
| "replaceable (Dir es) (Some (Dir [])) = True"
| "replaceable n m = False"

fun kind_dir :: "node \<Rightarrow> bool" where
  "kind_dir (Dir es) = True"
| "kind_dir (File c) = False"

section \<open>Running file-system calls in the environment\<close>

definition fs_op :: "(node \<Rightarrow> js_error + node) \<Rightarrow> env \<Rightarrow> (js_error + unit) \<times> env" where
  "fs_op f s = (case f (fs s) of Inl e \<Rightarrow> (Inl e, s) | Inr t \<Rightarrow> (Inr (), s\<lparr>fs := t\<rparr>))"

text \<open>A call whose rejection is swallowed: \<open>.catch(() => {})\<close> or an empty \<open>catch\<close>.\<close>

definition quietly :: "(node \<Rightarrow> js_error + node) \<Rightarrow> env \<Rightarrow> env" where
  "quietly f s = snd (fs_op f s)"

definition and_then ::
  "(env \<Rightarrow> (js_error + 'a) \<times> env) \<Rightarrow> ('a \<Rightarrow> env \<Rightarrow> (js_error + 'b) \<times> env)
   \<Rightarrow> env \<Rightarrow> (js_error + 'b) \<times> env" where
  "and_then m f s = (case m s of (Inl e, s1) \<Rightarrow> (Inl e, s1) | (Inr v, s1) \<Rightarrow> f v s1)"

text \<open>\<open>try { ... } finally { ... }\<close> with a \<open>finally\<close> block that cannot throw.\<close>

definition finally_do ::
  "(env \<Rightarrow> (js_error + 'a) \<times> env) \<Rightarrow> (env \<Rightarrow> env) \<Rightarrow> env \<Rightarrow> (js_error + 'a) \<times> env" where
  "finally_do m cleanup s = (case m s of (r, s1) \<Rightarrow> (r, cleanup s1))"

definition randomBytes :: "env \<Rightarrow> string \<times> env" where
  "randomBytes s = (rand s (drawn s), s\<lparr>drawn := drawn s + 1\<rparr>)"

record stats =
  isDirectory :: bool
  st_dev :: nat

definition stat :: "path \<Rightarrow> env \<Rightarrow> js_error + stats" where
  "stat p s =
     (case lookup_path (fs s) p of
        None \<Rightarrow> Inl (errno ''ENOENT'')
      | Some (File c) \<Rightarrow> Inr \<lparr>isDirectory = False, st_dev = dev s p\<rparr>
      | Some (Dir es) \<Rightarrow> Inr \<lparr>isDirectory = True, st_dev = dev s p\<rparr>)"

text \<open>\<open>fs.access(path).then(() => true).catch(() => false)\<close>\<close>

definition access :: "path \<Rightarrow> env \<Rightarrow> bool" where
  "access p s \<longleftrightarrow> lookup_path (fs s) p \<noteq> None"

section \<open>acquireLock, run by a single task\<close>

definition lockFile :: "path \<Rightarrow> path" where
  "lockFile p = (if p = [] then [''.lock''] else join (dirname p) (basename p @ ''.lock''))"

text \<open>
  The tail shared by the \<open>catch\<close> block and the release function: the key is deleted
  and the next queued closure is taken and called. With no other task around, the
  closure belongs to a waiter that has timed out, and calling it does nothing.
\<close>

definition pass_on :: "path \<Rightarrow> env \<Rightarrow> env" where
  "pass_on p s = s\<lparr>tab := snd (shift_queue (delete_lock (tab s) p) p)\<rparr>"

text \<open>
  The function returned by \<open>acquireLock\<close>: the marker is unlinked, errors ignored,
  and the lock is passed on.
\<close>

definition unlock :: "path \<Rightarrow> env \<Rightarrow> env" where
  "unlock p s = (let s1 = pass_on p (quietly (unlink (lockFile p)) s)
                 in s1\<lparr>trace := trace s1 @ [Released p]\<rparr>)"

text \<open>
  \<open>acquireLock\<close> when no other task runs. If the key is taken nobody will release it,
  so the caller waits in the queue until its timer fires and is rejected. Otherwise the
  key is set and the marker is written exclusively, with up to three retries.
\<close>

definition acquireLock :: "path \<Rightarrow> env \<Rightarrow> (js_error + unit) \<times> env" where
  "acquireLock p s0 =
     (case randomBytes s0 of (lockId, s) \<Rightarrow>
        if has_lock (tab s) p
        then (let c = calls s;
                  s1 = s\<lparr>calls := c + 1, tab := enqueue (tab s) p (WrappedResolve c)\<rparr>;
                  s2 = s1\<lparr>tab := timer_splice (tab s1) p (Resolve c)\<rparr>
              in (Inl (Error None (''Lock timeout: '' @ path_string p)), s2))
        else (case withRetry (fs_op (writeFile (lockFile p) lockId True))
                     (''acquiring lock on '' @ path_string p) 3 (s\<lparr>tab := set_lock (tab s) p\<rparr>) of
                (Inl e, s1) \<Rightarrow> (Inl e, pass_on p s1)
              | (Inr u, s1) \<Rightarrow> (Inr (), s1\<lparr>trace := trace s1 @ [Acquired p]\<rparr>)))"

section \<open>atomicWrite, atomicCopy, atomicMove\<close>

definition tempPath :: "path \<Rightarrow> string \<Rightarrow> path" where
  "tempPath targetPath r = join (dirname targetPath) (''.'' @ basename targetPath @ ''.'' @ r @ ''.tmp'')"

text \<open>
  The last step of each write: rename over the target, after deleting the target first
  on \<open>win32\<close> (failure of that deletion ignored).
\<close>

definition replace_target ::
  "(path \<Rightarrow> node \<Rightarrow> js_error + node) \<Rightarrow> path \<Rightarrow> path \<Rightarrow> env \<Rightarrow> (js_error + unit) \<times> env" where
  "replace_target remove from targetPath s =
     (if \<not> win32 s then fs_op (rename from targetPath) s
      else fs_op (rename from targetPath) (quietly (remove targetPath) s))"

definition write_body :: "path \<Rightarrow> path \<Rightarrow> string \<Rightarrow> env \<Rightarrow> (js_error + unit) \<times> env" where
  "write_body tmp targetPath content =
     and_then (fs_op (writeFile tmp content False)) (\<lambda>u. replace_target unlink tmp targetPath)"

definition atomicWrite :: "path \<Rightarrow> string \<Rightarrow> env \<Rightarrow> (js_error + unit) \<times> env" where
  "atomicWrite targetPath content s0 =
     (case randomBytes s0 of (r, s) \<Rightarrow>
        and_then (withRetry_default (fs_op (mkdir_p (dirname targetPath)))
                    (''creating directory '' @ path_string (dirname targetPath)))
          (\<lambda>u. and_then (acquireLock targetPath)
             (\<lambda>u. finally_do
                     (withRetry_default (write_body (tempPath targetPath r) targetPath content)
                        (''atomic write to '' @ path_string targetPath))
                     (\<lambda>s1. unlock targetPath (quietly (unlink (tempPath targetPath r)) s1)))) s)"

text \<open>
  Timestamps are not part of the tree, so \<open>fs.utimes\<close> and the \<open>preserveTimestamps\<close>
  option of \<open>fs.cp\<close> change nothing here; \<open>utimes\<close> still fails on a missing path.
\<close>

definition utimes :: "path \<Rightarrow> node \<Rightarrow> js_error + node" where
  "utimes p t = (case lookup_path t p of None \<Rightarrow> Inl (errno ''ENOENT'') | Some n \<Rightarrow> Inr t)"

definition copy_body ::
  "path \<Rightarrow> path \<Rightarrow> path \<Rightarrow> bool option \<Rightarrow> env \<Rightarrow> (js_error + unit) \<times> env" where
  "copy_body sourcePath tmp targetPath preserveTimestamps s =
     (case stat sourcePath s of
        Inl e \<Rightarrow> (Inl e, s)
      | Inr sourceStats \<Rightarrow>
          and_then
            (if isDirectory sourceStats then fs_op (cp sourcePath tmp)
             else and_then (fs_op (copyFile sourcePath tmp))
                    (\<lambda>u. if preserveTimestamps = Some True then fs_op (utimes tmp)
                          else (\<lambda>s1. (Inr (), s1))))
            (\<lambda>u. replace_target rm_rf tmp targetPath) s)"

definition atomicCopy :: "path \<Rightarrow> path \<Rightarrow> bool option \<Rightarrow> env \<Rightarrow> (js_error + unit) \<times> env" where
  "atomicCopy sourcePath targetPath preserveTimestamps s0 =
     (case randomBytes s0 of (r, s) \<Rightarrow>
        and_then (withRetry_default (fs_op (mkdir_p (dirname targetPath)))
                    (''creating directory '' @ path_string (dirname targetPath)))
          (\<lambda>u. and_then (acquireLock targetPath)
             (\<lambda>u. finally_do
                     (withRetry_default
                        (copy_body sourcePath (tempPath targetPath r) targetPath preserveTimestamps)
                        (''atomic copy from '' @ path_string sourcePath @ '' to '' @ path_string targetPath))
                     (\<lambda>s1. unlock targetPath (quietly (rm_rf (tempPath targetPath r)) s1)))) s)"

text \<open>\<open>catch (error) { throw new Error(`Atomic move failed: ${error.message}`) }\<close>\<close>

definition move_failed :: "(js_error + unit) \<times> env \<Rightarrow> (js_error + unit) \<times> env" where
  "move_failed r =
     (case r of
        (Inl e, s) \<Rightarrow> (Inl (Error None (''Atomic move failed: '' @ message e)), s)
      | (Inr u, s) \<Rightarrow> (Inr u, s))"

definition atomicMove :: "path \<Rightarrow> path \<Rightarrow> env \<Rightarrow> (js_error + unit) \<times> env" where
  "atomicMove sourcePath targetPath =
     and_then (withRetry_default (fs_op (mkdir_p (dirname targetPath)))
                 (''creating directory '' @ path_string (dirname targetPath)))
       (\<lambda>u s. move_failed
          (case stat (dirname sourcePath) s of
             Inl e \<Rightarrow> (Inl e, s)
           | Inr sourceStat \<Rightarrow>
               (case stat (dirname targetPath) s of
                  Inr targetStat \<Rightarrow>
                    if st_dev sourceStat = st_dev targetStat
                    then and_then (acquireLock targetPath)
                           (\<lambda>u. finally_do
                                   (withRetry_default (replace_target rm_rf sourcePath targetPath)
                                      (''atomic move from '' @ path_string sourcePath @ '' to '' @
                                       path_string targetPath))
                                   (unlock targetPath)) s
                    else and_then (atomicCopy sourcePath targetPath (Some True))
                           (\<lambda>u. fs_op (rm_rf sourcePath)) s
                | Inl e \<Rightarrow>
                    and_then (atomicCopy sourcePath targetPath (Some True))
                      (\<lambda>u. fs_op (rm_rf sourcePath)) s)))"

section \<open>TransactionLog\<close>

datatype op_type = Backup | Write | Copy

record operation =
  op_type :: op_type
  op_path :: path
  op_backup :: "path option"

record transaction_log =
  operations :: "operation list"
  backupDir :: path

text \<open>The constructor: \<open>tmp\<close> is \<open>tmpdir()\<close> and \<open>now\<close> is \<open>Date.now()\<close>.\<close>

definition new_TransactionLog :: "path \<Rightarrow> nat \<Rightarrow> env \<Rightarrow> transaction_log \<times> env" where
  "new_TransactionLog tmp now s0 =
     (case randomBytes s0 of (r, s) \<Rightarrow>
        (\<lparr>operations = [], backupDir = join tmp (''.create-codex-tx-'' @ string_of_nat now @ ''-'' @ r)\<rparr>, s))"

definition tx_init :: "transaction_log \<Rightarrow> env \<Rightarrow> (js_error + unit) \<times> env" where
  "tx_init tx = fs_op (mkdir_p (backupDir tx))"

text \<open>
  The methods change the log and the environment; a method that throws has still made
  the changes of the steps it completed.
\<close>

definition tx_backup ::
  "path \<Rightarrow> transaction_log \<times> env \<Rightarrow> (js_error + unit) \<times> transaction_log \<times> env" where
  "tx_backup p = (\<lambda>(tx, s0).
     if \<not> access p s0 then (Inr (), tx, s0)
     else (case randomBytes s0 of (r, s) \<Rightarrow>
             (case atomicCopy p (join (backupDir tx) r) None s of
                (Inl e, s1) \<Rightarrow> (Inl e, tx, s1)
              | (Inr u, s1) \<Rightarrow>
                  (Inr (),
                   tx\<lparr>operations := operations tx @
                        [\<lparr>op_type = Backup, op_path = p, op_backup = Some (join (backupDir tx) r)\<rparr>]\<rparr>,
                   s1))))"

definition tx_write ::
  "path \<Rightarrow> string \<Rightarrow> transaction_log \<times> env \<Rightarrow> (js_error + unit) \<times> transaction_log \<times> env" where
  "tx_write p content txs =
     (case tx_backup p txs of
        (Inl e, tx1, s1) \<Rightarrow> (Inl e, tx1, s1)
      | (Inr u, tx1, s1) \<Rightarrow>
          (case atomicWrite p content s1 of
             (Inl e, s2) \<Rightarrow> (Inl e, tx1, s2)
           | (Inr u, s2) \<Rightarrow>
               (Inr (),
                tx1\<lparr>operations := operations tx1 @ [\<lparr>op_type = Write, op_path = p, op_backup = None\<rparr>]\<rparr>,
                s2)))"

definition tx_copy ::
  "path \<Rightarrow> path \<Rightarrow> transaction_log \<times> env \<Rightarrow> (js_error + unit) \<times> transaction_log \<times> env" where
  "tx_copy source target txs =
     (case tx_backup target txs of
        (Inl e, tx1, s1) \<Rightarrow> (Inl e, tx1, s1)
      | (Inr u, tx1, s1) \<Rightarrow>
          (case atomicCopy source target None s1 of
             (Inl e, s2) \<Rightarrow> (Inl e, tx1, s2)
           | (Inr u, s2) \<Rightarrow>
               (Inr (),
                tx1\<lparr>operations := operations tx1 @ [\<lparr>op_type = Copy, op_path = target, op_backup = None\<rparr>]\<rparr>,
                s2)))"

text \<open>One turn of the loop of \<open>rollback\<close>; a failure is logged or ignored, never thrown.\<close>

definition rollback_step :: "operation \<Rightarrow> env \<Rightarrow> env" where
  "rollback_step op s =
     (if op_type op = Backup \<and> op_backup op \<noteq> None
      then snd (atomicMove (the (op_backup op)) (op_path op) s)
      else if op_type op = Write \<or> op_type op = Copy
      then quietly (rm_rf (op_path op)) s
      else s)"

fun rollback_loop :: "operation list \<Rightarrow> env \<Rightarrow> env" where
  "rollback_loop [] s = s"
| "rollback_loop (op # ops) s = rollback_loop ops (rollback_step op s)"

text \<open>
  \<open>for (const op of this.operations.reverse())\<close>: \<open>Array.prototype.reverse\<close> reverses
  the array in place and returns it, so the log keeps the reversed order.
\<close>

definition tx_rollback :: "transaction_log \<times> env \<Rightarrow> transaction_log \<times> env" where
  "tx_rollback = (\<lambda>(tx, s).
     (tx\<lparr>operations := rev (operations tx)\<rparr>, rollback_loop (rev (operations tx)) s))"

definition tx_commit :: "transaction_log \<times> env \<Rightarrow> transaction_log \<times> env" where
  "tx_commit = (\<lambda>(tx, s). (tx, quietly (rm_rf (backupDir tx)) s))"


section \<open>What a step leaves alone\<close>

text \<open>
  The second tree agrees with the first at every path that is neither above nor below a
  path of \<open>A\<close> nor above a directory of \<open>Ds\<close> (the directories \<open>mkdir\<close> may have
  created), and directories outside \<open>A\<close> are still directories.
\<close>

definition unchanged_outside :: "path set \<Rightarrow> path set \<Rightarrow> node \<Rightarrow> node \<Rightarrow> bool" where
  "unchanged_outside A Ds t t' \<longleftrightarrow>
     (\<forall>X. (\<forall>p\<in>A. \<not> prefix p X \<and> \<not> prefix X p) \<and> (\<forall>d\<in>Ds. \<not> prefix X d)
          \<longrightarrow> lookup_path t' X = lookup_path t X) \<and>
     (\<forall>X. (\<forall>p\<in>A. \<not> prefix p X) \<and> is_dir t X \<longrightarrow> is_dir t' X)"

text \<open>Events that verify a backup: a digest taken or a directory listed.\<close>

fun is_check :: "event \<Rightarrow> bool" where
  "is_check (Hashed p) = True"
| "is_check (Listed p) = True"
| "is_check e = False"

text \<open>
  The parts of the environment no function of the module changes, the draws only
  growing and the trace only growing, by events that are no checks.
\<close>

definition quiet :: "env \<Rightarrow> env \<Rightarrow> bool" where
  "quiet s s' \<longleftrightarrow>
     win32 s' = win32 s \<and> dev s' = dev s \<and> rand s' = rand s \<and> drawn s \<le> drawn s' \<and>
     (\<exists>evs. trace s' = trace s @ evs \<and> list_all (\<lambda>e. \<not> is_check e) evs)"

text \<open>The trace without its sleeps: the locks granted and released and the checks made.\<close>

fun is_slept :: "event \<Rightarrow> bool" where
  "is_slept (Slept d) = True"
| "is_slept e = False"

definition marks :: "env \<Rightarrow> event list" where
  "marks s = filter (\<lambda>e. \<not> is_slept e) (trace s)"

section \<open>Backup verification (files.ts)\<close>

text \<open>
  \<open>hashFile\<close> streams the file through SHA-256 and returns the digest; the digest
  function itself is a parameter.
\<close>

definition hashFile :: "(string \<Rightarrow> string) \<Rightarrow> path \<Rightarrow> env \<Rightarrow> (js_error + string) \<times> env" where
  "hashFile sha256 p s =
     (case lookup_path (fs s) p of
        None \<Rightarrow> (Inl (errno ''ENOENT''), s)
      | Some (Dir es) \<Rightarrow> (Inl (errno ''EISDIR''), s)
      | Some (File c) \<Rightarrow> (Inr (sha256 c), s\<lparr>trace := trace s @ [Hashed p]\<rparr>))"

text \<open>
  The inner \<open>traverse\<close> of \<open>getAllFiles\<close>: the entries of a directory in listing order,
  directories entered, files pushed with their path relative to the start.
\<close>

fun traverse :: "node \<Rightarrow> path \<Rightarrow> path list" where
  "traverse (File c) pre = []"
| "traverse (Dir es) pre =
     concat (map (\<lambda>e. case snd e of
                         Dir ds \<Rightarrow> traverse (snd e) (pre @ [fst e])
                       | File c \<Rightarrow> [pre @ [fst e]]) es)"

definition getAllFiles :: "path \<Rightarrow> env \<Rightarrow> (js_error + path list) \<times> env" where
  "getAllFiles dir s =
     (case lookup_path (fs s) dir of
        None \<Rightarrow> (Inl (errno ''ENOENT''), s)
      | Some (File c) \<Rightarrow> (Inl (errno ''ENOTDIR''), s)
      | Some (Dir es) \<Rightarrow> (Inr (traverse (Dir es) []), s\<lparr>trace := trace s @ [Listed dir]\<rparr>))"

definition structure_mismatch :: js_error where
  "structure_mismatch = Error None ''CRITICAL: Backup verification failed - directory structure mismatch''"

definition sha_mismatch :: js_error where
  "sha_mismatch = Error None ''CRITICAL: Backup verification failed: SHA256 mismatch detected''"

text \<open>
  \<open>verifyBackup\<close>. Both digests are requested (\<open>Promise.all\<close>) before either result is
  looked at.
\<close>

definition verifyBackup ::
  "(string \<Rightarrow> string) \<Rightarrow> path \<Rightarrow> path \<Rightarrow> env \<Rightarrow> (js_error + unit) \<times> env" where
  "verifyBackup sha256 originalPath backupPath s =
     (case stat originalPath s of
        Inl e \<Rightarrow> (Inl e, s)
      | Inr stats \<Rightarrow>
          if isDirectory stats
          then and_then (getAllFiles originalPath)
                 (\<lambda>originalFiles. and_then (getAllFiles backupPath)
                    (\<lambda>backupFiles s2.
                       if length originalFiles \<noteq> length backupFiles \<or>
                          \<not> list_all (\<lambda>f. f \<in> set backupFiles) originalFiles
                       then (Inl structure_mismatch, s2)
                       else (Inr (), s2))) s
          else (case hashFile sha256 originalPath s of
                  (r1, s1) \<Rightarrow>
                    (case hashFile sha256 backupPath s1 of
                       (r2, s2) \<Rightarrow>
                         (case (r1, r2) of
                            (Inl e, r) \<Rightarrow> (Inl e, s2)
                          | (Inr originalHash, Inl e) \<Rightarrow> (Inl e, s2)
                          | (Inr originalHash, Inr backupHash) \<Rightarrow>
                              if originalHash \<noteq> backupHash then (Inl sha_mismatch, s2)
                              else (Inr (), s2)))))"

text \<open>A directory lists each name once.\<close>

fun wf_node :: "node \<Rightarrow> bool" where
  "wf_node (File c) = True"
| "wf_node (Dir es) = (distinct (map fst es) \<and> list_all (\<lambda>e. wf_node (snd e)) es)"

section \<open>A small disk to run on\<close>

definition demo_tree :: node where
  "demo_tree =
     Dir [(''tmp'', Dir [(''tx'', Dir [])]),
          (''a.txt'', File ''old''),
          (''copy.txt'', File ''ole''),
          (''d'', Dir [(''a'', File ''1''), (''b'', Dir [(''c'', File ''2'')])]),
          (''d1'', Dir [(''b'', Dir [(''c'', File ''3'')]), (''a'', File ''4'')]),
          (''d2'', Dir [(''a'', File ''1'')])]"

text \<open>The \<open>i\<close>-th string drawn is \<open>i + 1\<close> times the digit \<open>a\<close>.\<close>

definition demo_env :: "node \<Rightarrow> env" where
  "demo_env t =
     \<lparr>fs = t, tab = no_locks, calls = 0, trace = [],
      rand = (\<lambda>i. replicate (Suc i) (CHR ''a'')), drawn = 0, win32 = False, dev = (\<lambda>p. 0)\<rparr>"

definition demo_tx :: transaction_log where
  "demo_tx = \<lparr>operations = [], backupDir = [''tmp'', ''tx'']\<rparr>"

section \<open>A transaction as its caller runs it\<close>

text \<open>
  The callers of \<open>TransactionLog\<close> issue \<open>write\<close> and \<open>copy\<close> calls one after the
  other and then commit or roll back. A request is one such call; \<open>mutate\<close> is the
  atomic operation the call ends with and \<open>record_of\<close> the record it pushes.
\<close>

datatype request = WriteReq path string | CopyReq path path

fun target :: "request \<Rightarrow> path" where
  "target (WriteReq p content) = p"
| "target (CopyReq source p) = p"

fun mutate :: "request \<Rightarrow> env \<Rightarrow> (js_error + unit) \<times> env" where
  "mutate (WriteReq p content) = atomicWrite p content"
| "mutate (CopyReq source p) = atomicCopy source p None"

fun record_of :: "request \<Rightarrow> operation" where
  "record_of (WriteReq p content) = \<lparr>op_type = Write, op_path = p, op_backup = None\<rparr>"
| "record_of (CopyReq source p) = \<lparr>op_type = Copy, op_path = p, op_backup = None\<rparr>"

fun tx_request ::
  "request \<Rightarrow> transaction_log \<times> env \<Rightarrow> (js_error + unit) \<times> transaction_log \<times> env" where
  "tx_request (WriteReq p content) txs = tx_write p content txs"
| "tx_request (CopyReq source p) txs = tx_copy source p txs"

text \<open>
  A run makes every call of the list, whether or not an earlier one threw; a caller that
  stops at the first failure has made the run of a shorter list.
\<close>

fun tx_run :: "request list \<Rightarrow> transaction_log \<times> env \<Rightarrow> transaction_log \<times> env" where
  "tx_run [] txs = txs"
| "tx_run (q # qs) txs = tx_run qs (snd (tx_request q txs))"

text \<open>The Backup record \<open>backup\<close> pushes.\<close>

definition backup_record :: "path \<Rightarrow> path \<Rightarrow> operation" where
  "backup_record p b = \<lparr>op_type = Backup, op_path = p, op_backup = Some b\<rparr>"


section \<open>Targets that keep out of each other's way\<close>

text \<open>Neither path lies at or below the other.\<close>

definition apart :: "path \<Rightarrow> path \<Rightarrow> bool" where
  "apart p q \<longleftrightarrow> \<not> prefix p q \<and> \<not> prefix q p"

text \<open>The lock file of a path and every temporary file a write of it may use.\<close>

definition aux_paths :: "path \<Rightarrow> path set" where
  "aux_paths p = insert (lockFile p) (range (tempPath p))"

text \<open>
  No target is the root of the disk, two targets are the same path or apart, every target
  is apart from the backup root, and neither a target nor the backup root lies at or
  below the lock file or a temporary file of a target.
\<close>

definition separate_targets :: "path set \<Rightarrow> path \<Rightarrow> bool" where
  "separate_targets Ps root \<longleftrightarrow>
     (\<forall>p\<in>Ps. p \<noteq> [] \<and> apart p root \<and> (\<forall>x\<in>aux_paths p. \<not> prefix x root) \<and>
        (\<forall>q\<in>Ps. (p = q \<or> apart p q) \<and> (\<forall>x\<in>aux_paths p. \<not> prefix x q)))"

text \<open>The random names are pairwise different and, being hexadecimal, hold no dot.\<close>

definition hex_names :: "(nat \<Rightarrow> string) \<Rightarrow> bool" where
  "hex_names f \<longleftrightarrow> inj f \<and> (\<forall>i. CHR ''.'' \<notin> set (f i))"

text \<open>
  The start of a transaction: nothing recorded, no lock held, the backup root an empty
  directory (as \<open>init\<close> makes it), and no lock file or temporary file of a target on disk.
\<close>

definition clean_start :: "path set \<Rightarrow> transaction_log \<Rightarrow> env \<Rightarrow> bool" where
  "clean_start Ps tx s \<longleftrightarrow>
     operations tx = [] \<and> tab s = no_locks \<and> lookup_path (fs s) (backupDir tx) = Some (Dir []) \<and>
     (\<forall>p\<in>Ps. \<forall>x\<in>aux_paths p. lookup_path (fs s) x = None)"


section \<open>What rollback will do with the records\<close>

text \<open>
  \<open>restores p v0 vals rs v\<close>: the records \<open>rs\<close>, undone first to last while \<open>p\<close> holds
  \<open>v\<close> and the backups hold \<open>vals\<close>, leave \<open>p\<close> holding \<open>v0\<close>. Undoing a Write or Copy
  record deletes \<open>p\<close>; undoing a Backup record moves the backup onto \<open>p\<close>, which is then
  absent or already equal to the backup.
\<close>

fun restores :: "path \<Rightarrow> node option \<Rightarrow> (path \<Rightarrow> node option) \<Rightarrow> operation list \<Rightarrow> node option \<Rightarrow> bool" where
  "restores p v0 vals [] v = (v = v0)"
| "restores p v0 vals (op # rs) v =
     (if op_path op \<noteq> p then restores p v0 vals rs v
      else case op_backup op of
             None \<Rightarrow> restores p v0 vals rs None
           | Some b \<Rightarrow> vals b \<noteq> None \<and> (v = None \<or> v = vals b) \<and> restores p v0 vals rs (vals b))"

definition backups :: "operation list \<Rightarrow> path list" where
  "backups rs = concat (map (\<lambda>op. case op_backup op of None \<Rightarrow> [] | Some b \<Rightarrow> [b]) rs)"

text \<open>
  A record as the log makes them: of a target whose parent directory is there, a Backup
  record with a backup named by an earlier draw, or a Write or Copy record without one.
\<close>

definition sound_record :: "path set \<Rightarrow> path \<Rightarrow> env \<Rightarrow> operation \<Rightarrow> bool" where
  "sound_record Ps root s op \<longleftrightarrow>
     op_path op \<in> Ps \<and> is_dir (fs s) (dirname (op_path op)) \<and>
     (case op_backup op of
        None \<Rightarrow> op_type op \<noteq> Backup
      | Some b \<Rightarrow> op_type op = Backup \<and> (\<exists>i<drawn s. b = root @ [rand s i]))"

text \<open>
  Between two calls: no lock held, the backup root a directory holding no name with a dot
  and no name still to be drawn, and no lock file or temporary file of a target on disk.
\<close>

definition tidy :: "path set \<Rightarrow> path \<Rightarrow> env \<Rightarrow> bool" where
  "tidy Ps root s \<longleftrightarrow>
     tab s = no_locks \<and> is_dir (fs s) root \<and>
     (\<forall>p\<in>Ps. \<forall>x\<in>aux_paths p. lookup_path (fs s) x = None) \<and>
     (\<forall>y. CHR ''.'' \<in> set y \<longrightarrow> lookup_path (fs s) (root @ [y]) = None) \<and>
     (\<forall>i\<ge>drawn s. lookup_path (fs s) (root @ [rand s i]) = None)"

text \<open>The records \<open>rs\<close>, last pushed first, can be undone from \<open>s\<close> to give back \<open>t0\<close>.\<close>

definition undoable :: "path set \<Rightarrow> path \<Rightarrow> node \<Rightarrow> operation list \<Rightarrow> env \<Rightarrow> bool" where
  "undoable Ps root t0 rs s \<longleftrightarrow>
     tidy Ps root s \<and> list_all (sound_record Ps root s) rs \<and> distinct (backups rs) \<and>
     (\<forall>p\<in>Ps. restores p (lookup_path t0 p) (lookup_path (fs s)) rs (lookup_path (fs s) p))"

text \<open>
  Every Write or Copy record of \<open>p\<close> stands right after a Backup record of \<open>p\<close>.
\<close>

definition guarded :: "path \<Rightarrow> operation list \<Rightarrow> bool" where
  "guarded p ops \<longleftrightarrow>
     (\<forall>i<length ops. op_path (ops ! i) = p \<and> op_type (ops ! i) \<noteq> Backup \<longrightarrow>
        0 < i \<and> op_path (ops ! (i - 1)) = p \<and> op_type (ops ! (i - 1)) = Backup)"

definition backup_records :: "path \<Rightarrow> operation list \<Rightarrow> operation list" where
  "backup_records p ops = filter (\<lambda>op. op_path op = p \<and> op_type op = Backup) ops"

section \<open>Claims about withRetry\<close>

text \<open>
  C5: the retry executor aborts at once on a permanent error, with no retry and no
  back-off wait. The code gives up without another attempt, but only after it has slept
  the first delay of the schedule: run on an operation that throws \<open>ENOENT\<close>, with the
  default five retries, it sleeps 100 ms and then raises the aggregated error.
\<close>

theorem withRetry_permanent_sleeps_first:
  "withRetry_default vanished ''reading'' s =
     (Inl (Error None ''reading failed after 5 retries: ENOENT: no such file or directory''),
      s\<lparr>trace := trace s @ [Slept 100]\<rparr>)"
proof -
  have five: "length RETRY_DELAYS = 5"
    by (simp add: RETRY_DELAYS_def)
  have shown: "string_of_nat 5 = ''5''"
    by (simp add: string_of_nat.simps [of 5] digit_char_def)
  show ?thesis
    unfolding withRetry_default_def withRetry_def five
    by (simp add: withRetry_loop.simps [of 0] vanished_def RETRY_DELAYS_def is_permanent_def
        retry_error_def sleep_def shown)
qed

section \<open>Facts about the tree\<close>

lemma is_dir_root_Dir [simp]: "is_dir (Dir es) []"
  by (simp add: is_dir_def)

lemma lookup_append:
  "lookup_path t (p @ q) = (case lookup_path t p of None \<Rightarrow> None | Some n \<Rightarrow> lookup_path n q)"
proof (induction t p rule: lookup_path.induct)
  case (2 c x xs)
  then show ?case by simp
qed (auto split: option.splits)

lemma lookup_File: "lookup_path (File c) q = (if q = [] then Some (File c) else None)"
  by (cases q) simp_all

lemma lookup_prefix_exists:
  "lookup_path t q \<noteq> None \<Longrightarrow> prefix p q \<Longrightarrow> lookup_path t p \<noteq> None"
proof -
  assume a: "lookup_path t q \<noteq> None" and "prefix p q"
  then obtain zs where "q = p @ zs" by (auto elim: prefixE)
  with a show ?thesis by (auto simp: lookup_append split: option.splits)
qed

lemma lookup_under_file:
  "lookup_path t p = Some (File c) \<Longrightarrow> strict_prefix p q \<Longrightarrow> lookup_path t q = None"
proof -
  assume a: "lookup_path t p = Some (File c)" and "strict_prefix p q"
  then obtain zs where "q = p @ zs" "zs \<noteq> []" by (auto elim!: strict_prefixE prefixE)
  with a show ?thesis by (simp add: lookup_append lookup_File)
qed

lemma lookup_strict_prefix_dir:
  "lookup_path t q \<noteq> None \<Longrightarrow> strict_prefix p q \<Longrightarrow> is_dir t p"
proof -
  assume a: "lookup_path t q \<noteq> None" "strict_prefix p q"
  then have "lookup_path t p \<noteq> None"
    using lookup_prefix_exists [of t q p] by (simp add: strict_prefix_def)
  then obtain n where n: "lookup_path t p = Some n" by auto
  show ?thesis
  proof (cases n)
    case (File c)
    with n a lookup_under_file [of t p c q] show ?thesis by simp
  next
    case (Dir es)
    with n show ?thesis by (simp add: is_dir_def)
  qed
qed

subsection \<open>put\<close>

lemma lookup_put_other:
  "\<not> prefix p q \<Longrightarrow> \<not> prefix q p \<Longrightarrow> lookup_path (put t p v) q = lookup_path t q"
proof (induction t p v arbitrary: q rule: put.induct)
  case (1 t v)
  then show ?case by simp
next
  case (2 c x xs v)
  then show ?case by simp
next
  case (3 es x xs v)
  from "3.prems" obtain y ys where q: "q = y # ys"
    by (cases q) auto
  show ?case
  proof (cases "y = x")
    case False
    then show ?thesis
      by (simp add: q update_conv' split: option.splits)
  next
    case True
    with "3.prems" q have ne: "xs \<noteq> []" and np: "\<not> prefix xs ys" "\<not> prefix ys xs"
      by auto
    show ?thesis
    proof (cases "map_of es x")
      case None
      with ne show ?thesis by (simp add: q)
    next
      case (Some n)
      with ne np "3.IH" [of n ys] True show ?thesis
        by (simp add: q update_conv')
    qed
  qed
qed

lemma lookup_put_under:
  "is_dir t (butlast p) \<Longrightarrow> p \<noteq> [] \<Longrightarrow> lookup_path (put t p v) (p @ q) = lookup_path v q"
proof (induction t p v rule: put.induct)
  case (3 es x xs v)
  show ?case
  proof (cases "xs = []")
    case True
    then show ?thesis by (simp add: update_conv')
  next
    case False
    with "3.prems" obtain n where n: "map_of es x = Some n" and d: "is_dir n (butlast xs)"
      by (auto simp: is_dir_def split: option.splits)
    with False "3.IH" [of n] show ?thesis
      by (simp add: update_conv')
  qed
qed (auto simp: is_dir_def lookup_File split: if_splits)

lemma lookup_put_same:
  "is_dir t (butlast p) \<Longrightarrow> p \<noteq> [] \<Longrightarrow> lookup_path (put t p v) p = Some v"
  using lookup_put_under [of t p v "[]"] by simp

lemma put_no_parent:
  "\<not> is_dir t (butlast p) \<Longrightarrow> p \<noteq> [] \<Longrightarrow> put t p v = t"
proof (induction t p v rule: put.induct)
  case (3 es x xs v)
  show ?case
  proof (cases "xs = []")
    case True
    with "3.prems" show ?thesis by simp
  next
    case False
    show ?thesis
    proof (cases "map_of es x")
      case None
      with False show ?thesis by simp
    next
      case (Some n)
      with False "3.prems" have "\<not> is_dir n (butlast xs)"
        by (simp add: is_dir_def)
      with False Some "3.IH" [of n] show ?thesis
        by (simp add: update_triv)
    qed
  qed
qed simp_all

lemma is_dir_put:
  "\<not> prefix p q \<Longrightarrow> is_dir (put t p v) q = is_dir t q"
proof (induction t p v arbitrary: q rule: put.induct)
  case (1 t v)
  then show ?case by simp
next
  case (2 c x xs v)
  then show ?case by simp
next
  case (3 es x xs v)
  show ?case
  proof (cases q)
    case Nil
    then show ?thesis by (simp add: is_dir_def split: option.splits)
  next
    case (Cons y ys)
    show ?thesis
    proof (cases "y = x")
      case False
      then show ?thesis
        by (simp add: Cons is_dir_def update_conv' split: option.splits)
    next
      case True
      with "3.prems" Cons have ne: "xs \<noteq> []" and np: "\<not> prefix xs ys"
        by auto
      show ?thesis
      proof (cases "map_of es x")
        case None
        with ne show ?thesis by (simp add: Cons)
      next
        case (Some n)
        with ne np "3.IH" [of n ys] True show ?thesis
          by (simp add: Cons update_conv' is_dir_def)
      qed
    qed
  qed
qed

subsection \<open>del\<close>

lemma lookup_del_other:
  "\<not> prefix p q \<Longrightarrow> \<not> prefix q p \<Longrightarrow> lookup_path (del t p) q = lookup_path t q"
proof (induction t p arbitrary: q rule: del.induct)
  case (1 t)
  then show ?case by simp
next
  case (2 c x xs)
  then show ?case by simp
next
  case (3 es x xs)
  from "3.prems" obtain y ys where q: "q = y # ys"
    by (cases q) auto
  show ?case
  proof (cases "y = x")
    case False
    then show ?thesis
      by (simp add: q update_conv' delete_conv' split: option.splits)
  next
    case True
    with "3.prems" q have ne: "xs \<noteq> []" and np: "\<not> prefix xs ys" "\<not> prefix ys xs"
      by auto
    show ?thesis
    proof (cases "map_of es x")
      case None
      with ne show ?thesis by (simp add: q)
    next
      case (Some n)
      with ne np "3.IH" [of n ys] True show ?thesis
        by (simp add: q update_conv')
    qed
  qed
qed

lemma lookup_del_same: "p \<noteq> [] \<Longrightarrow> lookup_path (del t p) p = None"
proof (induction t p rule: del.induct)
  case (3 es x xs)
  then show ?case
    by (auto simp: delete_conv' update_conv' split: option.splits)
qed simp_all

lemma lookup_del_under: "p \<noteq> [] \<Longrightarrow> lookup_path (del t p) (p @ q) = None"
proof (induction t p rule: del.induct)
  case (3 es x xs)
  then show ?case
    by (auto simp: delete_conv' update_conv' split: option.splits)
qed simp_all

lemma is_dir_del:
  "\<not> prefix p q \<Longrightarrow> is_dir (del t p) q = is_dir t q"
proof (induction t p arbitrary: q rule: del.induct)
  case (1 t)
  then show ?case by simp
next
  case (2 c x xs)
  then show ?case by simp
next
  case (3 es x xs)
  show ?case
  proof (cases q)
    case Nil
    then show ?thesis by (simp add: is_dir_def split: option.splits)
  next
    case (Cons y ys)
    show ?thesis
    proof (cases "y = x")
      case False
      then show ?thesis
        by (simp add: Cons is_dir_def update_conv' delete_conv' split: option.splits)
    next
      case True
      with "3.prems" Cons have ne: "xs \<noteq> []" and np: "\<not> prefix xs ys"
        by auto
      show ?thesis
      proof (cases "map_of es x")
        case None
        with ne show ?thesis by (simp add: Cons)
      next
        case (Some n)
        with ne np "3.IH" [of n ys] True show ?thesis
          by (simp add: Cons update_conv' is_dir_def)
      qed
    qed
  qed
qed

subsection \<open>mkdir\<close>

lemma mkdir_p_is_dir: "mkdir_p d t = Inr t' \<Longrightarrow> is_dir t' d"
proof (induction d t arbitrary: t' rule: mkdir_p.induct)
  case (4 x xs es)
  then show ?case
    by (auto simp: is_dir_def update_conv' split: sum.splits)
qed (auto simp: is_dir_def)

lemma mkdir_p_lookup:
  "mkdir_p d t = Inr t' \<Longrightarrow> \<not> prefix q d \<Longrightarrow> lookup_path t' q = lookup_path t q"
proof (induction d t arbitrary: t' q rule: mkdir_p.induct)
  case (4 x xs es)
  let ?n = "case map_of es x of None \<Rightarrow> Dir [] | Some n \<Rightarrow> n"
  from "4.prems" obtain n' where n': "mkdir_p xs ?n = Inr n'" and t': "t' = Dir (AList.update x n' es)"
    by (auto split: sum.splits)
  from "4.prems" obtain y ys where q: "q = y # ys"
    by (cases q) auto
  show ?case
  proof (cases "y = x")
    case False
    then show ?thesis by (simp add: q t' update_conv')
  next
    case True
    with "4.prems" q have "\<not> prefix ys xs" by simp
    from "4.IH" [OF n' this] have "lookup_path n' ys = lookup_path ?n ys" .
    moreover have "lookup_path (Dir []) ys = None \<or> ys = []"
      by (cases ys) auto
    moreover have "ys \<noteq> []" using \<open>\<not> prefix ys xs\<close> by auto
    ultimately show ?thesis
      using True by (auto simp: q t' update_conv' split: option.splits)
  qed
qed auto

lemma mkdir_p_keeps_dirs:
  "mkdir_p d t = Inr t' \<Longrightarrow> is_dir t q \<Longrightarrow> is_dir t' q"
proof (induction d t arbitrary: t' q rule: mkdir_p.induct)
  case (4 x xs es)
  let ?n = "case map_of es x of None \<Rightarrow> Dir [] | Some n \<Rightarrow> n"
  from "4.prems" obtain n' where n': "mkdir_p xs ?n = Inr n'" and t': "t' = Dir (AList.update x n' es)"
    by (auto split: sum.splits)
  show ?case
  proof (cases q)
    case Nil
    then show ?thesis by (simp add: t' is_dir_def)
  next
    case (Cons y ys)
    show ?thesis
    proof (cases "y = x")
      case False
      with "4.prems"(2) show ?thesis by (simp add: Cons t' update_conv' is_dir_def)
    next
      case True
      with "4.prems"(2) Cons obtain n where n: "map_of es x = Some n" and d: "is_dir n ys"
        by (auto simp: is_dir_def split: option.splits)
      with n' have "mkdir_p xs ?n = Inr n'" "is_dir ?n ys" by simp_all
      then have "is_dir n' ys" by (rule "4.IH")
      with True show ?thesis by (simp add: Cons t' update_conv' is_dir_def)
    qed
  qed
qed auto

lemma mkdir_p_existing: "is_dir t d \<Longrightarrow> mkdir_p d t = Inr t"
proof (induction d t rule: mkdir_p.induct)
  case (4 x xs es)
  then obtain n where n: "map_of es x = Some n" and d: "is_dir n xs"
    by (auto simp: is_dir_def split: option.splits)
  with "4.IH" show ?case
    by (simp add: update_triv)
qed (auto simp: is_dir_def)

section \<open>Rules for the control flow\<close>

lemma fs_op_Inl: "f (fs s) = Inl e \<Longrightarrow> fs_op f s = (Inl e, s)"
  by (simp add: fs_op_def)

lemma fs_op_Inr: "f (fs s) = Inr t \<Longrightarrow> fs_op f s = (Inr (), s\<lparr>fs := t\<rparr>)"
  by (simp add: fs_op_def)

lemma fs_op_cases:
  assumes "fs_op f s = (r, s')"
  obtains (fails) e where "f (fs s) = Inl e" "r = Inl e" "s' = s"
        | (works) t where "f (fs s) = Inr t" "r = Inr ()" "s' = s\<lparr>fs := t\<rparr>"
  using assms by (auto simp: fs_op_def split: sum.splits)

lemma quietly_cases:
  obtains (fails) e where "f (fs s) = Inl e" "quietly f s = s"
        | (works) t where "f (fs s) = Inr t" "quietly f s = s\<lparr>fs := t\<rparr>"
  by (cases "f (fs s)") (auto simp: quietly_def fs_op_def)

lemma and_then_cases:
  assumes "and_then m f s = (r, s')"
  obtains (first) e where "m s = (Inl e, s')" "r = Inl e"
        | (second) v s1 where "m s = (Inr v, s1)" "f v s1 = (r, s')"
  using assms by (auto simp: and_then_def split: prod.splits sum.splits)

lemma finally_do_cases:
  assumes "finally_do m cleanup s = (r, s')"
  obtains s1 where "m s = (r, s1)" "s' = cleanup s1"
  using assms by (auto simp: finally_do_def split: prod.splits)

text \<open>
  The rule for \<open>withRetry\<close>: what every failed attempt and every sleep preserves holds
  when it gives up; what a successful attempt establishes from there holds when it
  returns.
\<close>

lemma withRetry_loop_rule:
  assumes "withRetry_loop i le operation ctx n s = (r, s')"
    and "I s"
    and "\<And>s d. I s \<Longrightarrow> I (sleep d s)"
    and "\<And>s e s1. I s \<Longrightarrow> operation s = (Inl e, s1) \<Longrightarrow> I s1"
    and "\<And>s v s1. I s \<Longrightarrow> operation s = (Inr v, s1) \<Longrightarrow> Q v s1"
  shows "case r of Inl e \<Rightarrow> I s' | Inr v \<Rightarrow> Q v s'"
  using assms
proof (induction i le operation ctx n s rule: withRetry_loop.induct)
  case (1 i le operation ctx maxRetries s)
  note run = "1.prems"(1) [unfolded withRetry_loop.simps [of i le operation ctx maxRetries s]]
    and inv = "1.prems"(2) and slp = "1.prems"(3)
    and fail = "1.prems"(4) and succ = "1.prems"(5)
  show ?case
  proof (cases "i \<le> maxRetries")
    case False
    with run inv show ?thesis
      by auto
  next
    case within: True
    obtain r1 s1 where op: "operation s = (r1, s1)" by (cases "operation s")
    show ?thesis
    proof (cases r1)
      case (Inr v)
      with op inv succ have "Q v s1" by blast
      with Inr op within run show ?thesis
        by auto
    next
      case (Inl e)
      with op inv fail have I1: "I s1" by blast
      show ?thesis
      proof (cases "i = maxRetries")
        case True
        with Inl op within run I1 show ?thesis
          by auto
      next
        case ne: False
        let ?s2 = "sleep (RETRY_DELAYS ! min i (length RETRY_DELAYS - 1)) s1"
        have I2: "I ?s2" using I1 slp by blast
        show ?thesis
        proof (cases "is_permanent e")
          case True
          with Inl op within ne run I2 show ?thesis
            by (auto simp: Let_def)
        next
          case False
          with Inl op within ne run
          have "withRetry_loop (i + 1) (Some e) operation ctx maxRetries ?s2 = (r, s')"
            by (simp add: Let_def)
          from "1.IH" [OF within op [symmetric] _ ne refl refl False this I2 slp fail succ] Inl
          show ?thesis by simp
        qed
      qed
    qed
  qed
qed

lemma withRetry_rule:
  assumes "withRetry operation ctx n s = (r, s')"
    and "I s"
    and "\<And>s d. I s \<Longrightarrow> I (sleep d s)"
    and "\<And>s e s1. I s \<Longrightarrow> operation s = (Inl e, s1) \<Longrightarrow> I s1"
    and "\<And>s v s1. I s \<Longrightarrow> operation s = (Inr v, s1) \<Longrightarrow> Q v s1"
  shows "case r of Inl e \<Rightarrow> I s' | Inr v \<Rightarrow> Q v s'"
  using assms(1) unfolding withRetry_def
  by (rule withRetry_loop_rule) (use assms in auto)

lemma withRetry_default_rule:
  assumes "withRetry_default operation ctx s = (r, s')"
    and "I s"
    and "\<And>s d. I s \<Longrightarrow> I (sleep d s)"
    and "\<And>s e s1. I s \<Longrightarrow> operation s = (Inl e, s1) \<Longrightarrow> I s1"
    and "\<And>s v s1. I s \<Longrightarrow> operation s = (Inr v, s1) \<Longrightarrow> Q v s1"
  shows "case r of Inl e \<Rightarrow> I s' | Inr v \<Rightarrow> Q v s'"
  using assms(1) unfolding withRetry_default_def
  by (rule withRetry_rule) (use assms in auto)

section \<open>Frames\<close>

lemma unchanged_outside_refl [simp]: "unchanged_outside A Ds t t"
  by (simp add: unchanged_outside_def)

lemma unchanged_outside_trans:
  "unchanged_outside A Ds t t1 \<Longrightarrow> unchanged_outside A Ds t1 t2 \<Longrightarrow> unchanged_outside A Ds t t2"
  unfolding unchanged_outside_def by metis

lemma unchanged_outside_mono:
  "unchanged_outside A Ds t t' \<Longrightarrow> A \<subseteq> A' \<Longrightarrow> Ds \<subseteq> Ds' \<Longrightarrow> unchanged_outside A' Ds' t t'"
  unfolding unchanged_outside_def by (meson subsetD)

lemma unchanged_outside_put: "p \<in> A \<Longrightarrow> unchanged_outside A Ds t (put t p v)"
  unfolding unchanged_outside_def by (auto simp: lookup_put_other is_dir_put)

lemma unchanged_outside_del: "p \<in> A \<Longrightarrow> unchanged_outside A Ds t (del t p)"
  unfolding unchanged_outside_def by (auto simp: lookup_del_other is_dir_del)

lemma unchanged_outside_mkdir:
  "mkdir_p d t = Inr t' \<Longrightarrow> d \<in> Ds \<Longrightarrow> unchanged_outside A Ds t t'"
  unfolding unchanged_outside_def by (auto simp: mkdir_p_lookup mkdir_p_keeps_dirs)

lemma unchanged_outside_lookup:
  "unchanged_outside A Ds t t' \<Longrightarrow> \<forall>p\<in>A. \<not> prefix p X \<and> \<not> prefix X p \<Longrightarrow>
   \<forall>d\<in>Ds. \<not> prefix X d \<Longrightarrow> lookup_path t' X = lookup_path t X"
  unfolding unchanged_outside_def by blast

lemma unchanged_outside_is_dir:
  "unchanged_outside A Ds t t' \<Longrightarrow> is_dir t X \<Longrightarrow> \<forall>p\<in>A. \<not> prefix p X \<Longrightarrow> is_dir t' X"
  unfolding unchanged_outside_def by blast

lemma quiet_refl [simp]: "quiet s s"
  by (simp add: quiet_def)

lemma quiet_trans: "quiet s s1 \<Longrightarrow> quiet s1 s2 \<Longrightarrow> quiet s s2"
  unfolding quiet_def by (auto simp: list_all_iff)

lemma quiet_fs_update [simp]: "quiet s (s'\<lparr>fs := t\<rparr>) = quiet s s'"
  by (simp add: quiet_def)

lemma quiet_tab_update [simp]: "quiet s (s'\<lparr>tab := x\<rparr>) = quiet s s'"
  by (simp add: quiet_def)

lemma quiet_calls_update [simp]: "quiet s (s'\<lparr>calls := x\<rparr>) = quiet s s'"
  by (simp add: quiet_def)

lemma quiet_sleep: "quiet s s' \<Longrightarrow> quiet s (sleep d s')"
  by (auto simp: quiet_def sleep_def)

lemma quiet_event: "quiet s s' \<Longrightarrow> \<not> is_check e \<Longrightarrow> quiet s (s'\<lparr>trace := trace s' @ [e]\<rparr>)"
  by (auto simp: quiet_def)

lemma quiet_randomBytes: "randomBytes s = (r, s') \<Longrightarrow> quiet s s' \<and> fs s' = fs s \<and> tab s' = tab s \<and> r = rand s (drawn s) \<and> drawn s' = Suc (drawn s) \<and> trace s' = trace s \<and> calls s' = calls s"
  by (auto simp: randomBytes_def quiet_def)

lemma fs_sleep [simp]: "fs (sleep d s) = fs s" "tab (sleep d s) = tab s" "win32 (sleep d s) = win32 s"
  "dev (sleep d s) = dev s" "calls (sleep d s) = calls s" "drawn (sleep d s) = drawn s"
  "rand (sleep d s) = rand s"
  by (simp_all add: sleep_def)

section \<open>Siblings\<close>

lemma not_prefix_snoc [simp]: "\<not> prefix (D @ [x]) D"
  by (auto dest: prefix_length_le)

lemma prefix_snoc_same [simp]: "prefix (D @ [x]) (D @ [y]) \<longleftrightarrow> x = y"
  by simp

lemma dirname_snoc [simp]: "dirname (D @ [x]) = D"
  by (simp add: dirname_def)

lemma basename_snoc [simp]: "basename (D @ [x]) = x"
  by (simp add: basename_def)

lemma path_split: "Q \<noteq> [] \<Longrightarrow> Q = dirname Q @ [basename Q]"
  by (simp add: dirname_def basename_def)

lemma tempPath_snoc: "tempPath (D @ [x]) r = D @ [''.'' @ x @ ''.'' @ r @ ''.tmp'']"
  by (simp add: tempPath_def join_def)

lemma lockFile_snoc: "lockFile (D @ [x]) = D @ [x @ ''.lock'']"
  by (simp add: lockFile_def join_def)

lemma lock_name_neq [simp]: "x @ ''.lock'' \<noteq> x" "x \<noteq> x @ ''.lock''"
  by (auto dest: arg_cong [where f = length])

lemma temp_name_neq [simp]:
  "''.'' @ x @ ''.'' @ r @ ''.tmp'' \<noteq> x" "x \<noteq> ''.'' @ x @ ''.'' @ r @ ''.tmp''"
  "''.'' @ x @ ''.'' @ r @ ''.tmp'' \<noteq> x @ ''.lock''" "x @ ''.lock'' \<noteq> ''.'' @ x @ ''.'' @ r @ ''.tmp''"
  by (auto dest: arg_cong [where f = length])

section \<open>What the file-system calls do\<close>

lemma lookup_put_sibling [simp]:
  "x \<noteq> y \<Longrightarrow> lookup_path (put t (D @ [x]) v) (D @ [y]) = lookup_path t (D @ [y])"
  by (simp add: lookup_put_other)

lemma lookup_del_sibling [simp]:
  "x \<noteq> y \<Longrightarrow> lookup_path (del t (D @ [x])) (D @ [y]) = lookup_path t (D @ [y])"
  by (simp add: lookup_del_other)

lemma lookup_put_here [simp]:
  "is_dir t D \<Longrightarrow> lookup_path (put t (D @ [x]) v) (D @ [x]) = Some v"
  by (simp add: lookup_put_same)

lemma lookup_del_here [simp]: "lookup_path (del t (D @ [x])) (D @ [x]) = None"
  by (simp add: lookup_del_same)

lemma is_dir_put_parent [simp]: "is_dir (put t (D @ [x]) v) D = is_dir t D"
  by (simp add: is_dir_put)

lemma is_dir_del_parent [simp]: "is_dir (del t (D @ [x])) D = is_dir t D"
  by (simp add: is_dir_del)

lemma is_dir_lookup: "is_dir t D \<Longrightarrow> \<exists>es. lookup_path t D = Some (Dir es)"
  by (simp add: is_dir_def)

lemma lookup_child_parent: "lookup_path t (D @ [x]) \<noteq> None \<Longrightarrow> is_dir t D"
  by (rule lookup_strict_prefix_dir [where q = "D @ [x]"]) (auto simp: strict_prefix_def)

section \<open>Summaries: mkdir, acquireLock, unlock\<close>

lemma marks_simps [simp]:
  "marks (sleep d s) = marks s"
  "marks (s\<lparr>fs := t\<rparr>) = marks s"
  "marks (s\<lparr>tab := x\<rparr>) = marks s"
  "marks (s\<lparr>calls := c\<rparr>) = marks s"
  "marks (s\<lparr>drawn := n\<rparr>) = marks s"
  "marks (s\<lparr>trace := trace s @ [Acquired p]\<rparr>) = marks s @ [Acquired p]"
  "marks (s\<lparr>trace := trace s @ [Released p]\<rparr>) = marks s @ [Released p]"
  by (simp_all add: marks_def sleep_def)

lemma mkdir_retry:
  assumes "withRetry_default (fs_op (mkdir_p D)) ctx s = (r, s')"
  shows "quiet s s' \<and> tab s' = tab s \<and> calls s' = calls s \<and> drawn s' = drawn s \<and>
         marks s' = marks s \<and>
         (case r of Inl e \<Rightarrow> fs s' = fs s
                  | Inr u \<Rightarrow> mkdir_p D (fs s) = Inr (fs s'))"
proof -
  let ?I = "\<lambda>s1. quiet s s1 \<and> tab s1 = tab s \<and> calls s1 = calls s \<and> drawn s1 = drawn s \<and>
                 marks s1 = marks s \<and> fs s1 = fs s"
  let ?Q = "\<lambda>(u::unit) s1. quiet s s1 \<and> tab s1 = tab s \<and> calls s1 = calls s \<and> drawn s1 = drawn s \<and>
                 marks s1 = marks s \<and> mkdir_p D (fs s) = Inr (fs s1)"
  have "case r of Inl e \<Rightarrow> ?I s' | Inr v \<Rightarrow> ?Q v s'"
    using assms
  proof (rule withRetry_default_rule)
    show "?I s" by simp
  next
    fix s1 d assume "?I s1"
    then show "?I (sleep d s1)" by (simp add: quiet_sleep)
  next
    fix s1 e s2 assume "?I s1" "fs_op (mkdir_p D) s1 = (Inl e, s2)"
    then show "?I s2" by (auto elim!: fs_op_cases)
  next
    fix s1 v s2 assume "?I s1" "fs_op (mkdir_p D) s1 = (Inr v, s2)"
    then show "?Q v s2" by (auto elim!: fs_op_cases)
  qed
  then show ?thesis by (cases r) auto
qed

lemma no_locks_simps [simp]:
  "\<not> has_lock no_locks p"
  "snd (shift_queue (delete_lock (set_lock no_locks p) p) p) = no_locks"
  "snd (shift_queue (delete_lock no_locks p) p) = no_locks"
  by (simp_all add: has_lock_def no_locks_def shift_queue_def delete_lock_def set_lock_def)

lemma locks_shift_queue [simp]: "locks (snd (shift_queue t p)) = locks t"
  by (simp add: shift_queue_def split: option.splits list.splits)

lemma unlock_summary:
  "quiet s (unlock (D @ [x]) s) \<and> calls (unlock (D @ [x]) s) = calls s \<and>
   drawn (unlock (D @ [x]) s) = drawn s \<and>
   marks (unlock (D @ [x]) s) = marks s @ [Released (D @ [x])] \<and>
   tab (unlock (D @ [x]) s) = snd (shift_queue (delete_lock (tab s) (D @ [x])) (D @ [x])) \<and>
   fs (unlock (D @ [x]) s) =
     (case lookup_path (fs s) (D @ [x @ ''.lock'']) of
        Some (File c) \<Rightarrow> del (fs s) (D @ [x @ ''.lock''])
      | _ \<Rightarrow> fs s)"
  by (cases "lookup_path (fs s) (D @ [x @ ''.lock''])")
     (auto simp: unlock_def pass_on_def quietly_def fs_op_def unlink_def lockFile_snoc Let_def
        quiet_def marks_def split: node.splits)

lemma acquireLock_summary:
  assumes "acquireLock (D @ [x]) s = (r, s')"
  shows "quiet s s' \<and> drawn s' = Suc (drawn s) \<and> locks (tab s') = (case r of Inl e \<Rightarrow> locks (tab s) | Inr u \<Rightarrow> insert (D @ [x]) (locks (tab s))) \<and>
         (tab s = no_locks \<longrightarrow> tab s' = (case r of Inl e \<Rightarrow> no_locks | Inr u \<Rightarrow> set_lock no_locks (D @ [x]))) \<and>
         (case r of
            Inl e \<Rightarrow> fs s' = fs s \<and> marks s' = marks s
          | Inr u \<Rightarrow>
              D @ [x] \<notin> locks (tab s) \<and>
              lookup_path (fs s) (D @ [x @ ''.lock'']) = None \<and> is_dir (fs s) D \<and>
              (\<exists>c. fs s' = put (fs s) (D @ [x @ ''.lock'']) (File c)) \<and>
              marks s' = marks s @ [Acquired (D @ [x])])"
proof (cases "has_lock (tab s) (D @ [x])")
  case True
  with assms show ?thesis
    by (auto simp: acquireLock_def randomBytes_def Let_def quiet_def marks_def timer_splice_def
        enqueue_def has_lock_def no_locks_def)
next
  case False
  let ?L = "D @ [x @ ''.lock'']"
  let ?s1 = "s\<lparr>drawn := Suc (drawn s), tab := set_lock (tab s) (D @ [x])\<rparr>"
  obtain r1 s2 where w: "withRetry (fs_op (writeFile ?L (rand s (drawn s)) True))
      (''acquiring lock on '' @ path_string (D @ [x])) 3 ?s1 = (r1, s2)"
    by (cases "withRetry (fs_op (writeFile ?L (rand s (drawn s)) True))
      (''acquiring lock on '' @ path_string (D @ [x])) 3 ?s1")
  let ?I = "\<lambda>s1. quiet s s1 \<and> tab s1 = set_lock (tab s) (D @ [x]) \<and> drawn s1 = Suc (drawn s) \<and>
                 marks s1 = marks s \<and> fs s1 = fs s"
  let ?Q = "\<lambda>(u::unit) s1. quiet s s1 \<and> tab s1 = set_lock (tab s) (D @ [x]) \<and> drawn s1 = Suc (drawn s) \<and>
                 marks s1 = marks s \<and> lookup_path (fs s) ?L = None \<and> is_dir (fs s) D \<and>
                 fs s1 = put (fs s) ?L (File (rand s (drawn s)))"
  have post: "case r1 of Inl e \<Rightarrow> ?I s2 | Inr v \<Rightarrow> ?Q v s2"
    using w
  proof (rule withRetry_rule)
    show "?I ?s1" by (simp add: quiet_def marks_def)
  next
    fix s1 d assume "?I s1"
    then show "?I (sleep d s1)" by (simp add: quiet_sleep)
  next
    fix s1 e s3 assume "?I s1" "fs_op (writeFile ?L (rand s (drawn s)) True) s1 = (Inl e, s3)"
    then show "?I s3" by (auto elim!: fs_op_cases)
  next
    fix s1 v s3 assume "?I s1" "fs_op (writeFile ?L (rand s (drawn s)) True) s1 = (Inr v, s3)"
    then show "?Q v s3"
      by (auto elim!: fs_op_cases simp: writeFile_def is_dir_def split: option.splits node.splits if_splits)
  qed
  from assms False w have res: "(r, s') = (case r1 of Inl e \<Rightarrow> (Inl e, pass_on (D @ [x]) s2)
      | Inr u \<Rightarrow> (Inr (), s2\<lparr>trace := trace s2 @ [Acquired (D @ [x])]\<rparr>))"
    by (simp add: acquireLock_def randomBytes_def lockFile_snoc split: sum.splits)
  show ?thesis
  proof (cases r1)
    case (Inl e)
    with post res have s': "s' = pass_on (D @ [x]) s2" "r = Inl e"
      and s2: "quiet s s2" "tab s2 = set_lock (tab s) (D @ [x])" "drawn s2 = Suc (drawn s)"
        "marks s2 = marks s" "fs s2 = fs s"
      by auto
    have "locks (tab s') = locks (tab s)"
      using False by (auto simp: s' s2 pass_on_def delete_lock_def set_lock_def has_lock_def)
    moreover have "tab s = no_locks \<longrightarrow> tab s' = no_locks"
      by (auto simp: s' s2 pass_on_def)
    ultimately show ?thesis
      using s2 by (simp add: s' pass_on_def)
  next
    case (Inr u)
    with post res False show ?thesis
      by (auto simp: quiet_event set_lock_def has_lock_def)
  qed
qed

section \<open>Summaries: rename and the write\<close>

lemma unchanged_outside_put_step:
  "unchanged_outside A Ds t t1 \<Longrightarrow> p \<in> A \<Longrightarrow> unchanged_outside A Ds t (put t1 p v)"
  by (blast intro: unchanged_outside_trans unchanged_outside_put)

lemma unchanged_outside_del_step:
  "unchanged_outside A Ds t t1 \<Longrightarrow> p \<in> A \<Longrightarrow> unchanged_outside A Ds t (del t1 p)"
  by (blast intro: unchanged_outside_trans unchanged_outside_del)

lemma prefix_dirname: "prefix p (dirname q) \<Longrightarrow> prefix p q"
  by (metis dirname_def prefix_order.trans prefixeq_butlast)

lemma rename_Inr:
  assumes "rename src dst t = Inr t'" "\<not> prefix src dst" "\<not> prefix dst src"
  shows "\<exists>n. lookup_path t src = Some n \<and> t' = put (del t src) dst n \<and> is_dir t (dirname dst) \<and>
             lookup_path t' dst = Some n \<and> lookup_path t' src = None \<and> src \<noteq> [] \<and> dst \<noteq> []"
proof -
  from assms have ne: "src \<noteq> []" "dst \<noteq> []" "src \<noteq> dst"
    by auto
  from assms(1) ne obtain n where n: "lookup_path t src = Some n"
    by (auto simp: rename_def split: option.splits)
  from assms(1) ne n have d: "is_dir t (dirname dst)"
    by (auto simp: rename_def is_dir_def split: option.splits node.splits)
  from assms(1,2) ne n d have t': "t' = put (del t src) dst n"
    by (auto simp: rename_def is_dir_def split: option.splits node.splits list.splits if_splits)
  have "\<not> prefix src (butlast dst)"
    using assms(2) prefix_dirname [of src dst] by (auto simp: dirname_def)
  then have "is_dir (del t src) (butlast dst)"
    using d by (simp add: is_dir_del dirname_def)
  then have "lookup_path t' dst = Some n"
    using ne by (simp add: t' lookup_put_same)
  moreover have "lookup_path t' src = None"
    using assms(2,3) ne by (simp add: t' lookup_put_other lookup_del_same)
  ultimately show ?thesis using n t' d ne by simp
qed

lemma rename_succeeds:
  assumes "lookup_path t src = Some n" "is_dir t (dirname dst)" "src \<noteq> []" "dst \<noteq> []"
    "\<not> prefix src dst" "replaceable n (lookup_path t dst)"
  shows "rename src dst t = Inr (put (del t src) dst n)"
  using assms
  by (cases "(n, lookup_path t dst)" rule: replaceable.cases)
     (auto simp: rename_def is_dir_def split: option.splits node.splits list.splits)

lemma rename_fails_not_replaceable:
  assumes "rename src dst t = Inl e" "lookup_path t src = Some n" "is_dir t (dirname dst)"
    "src \<noteq> []" "dst \<noteq> []" "\<not> prefix src dst"
  shows "\<not> replaceable n (lookup_path t dst)"
  using assms rename_succeeds [of t src n dst] by auto

lemma write_body_step:
  assumes "tn \<noteq> x" "write_body (D @ [tn]) (D @ [x]) c s = (r, s')"
  shows "quiet s s' \<and> tab s' = tab s \<and> calls s' = calls s \<and> drawn s' = drawn s \<and> marks s' = marks s \<and>
         unchanged_outside {D @ [x], D @ [tn]} Ds (fs s) (fs s') \<and>
         (case r of
            Inl e \<Rightarrow> lookup_path (fs s') (D @ [x]) = lookup_path (fs s) (D @ [x]) \<and>
                     (lookup_path (fs s') (D @ [tn]) = lookup_path (fs s) (D @ [tn]) \<or>
                      lookup_path (fs s') (D @ [tn]) = Some (File c))
          | Inr u \<Rightarrow> lookup_path (fs s') (D @ [x]) = Some (File c) \<and>
                     lookup_path (fs s') (D @ [tn]) = None)"
  using assms(2) unfolding write_body_def
proof (cases rule: and_then_cases)
  case (first e)
  then show ?thesis by (auto elim!: fs_op_cases)
next
  case (second v s1)
  from second(1) obtain t1 where w: "writeFile (D @ [tn]) c False (fs s) = Inr t1"
    and s1: "s1 = s\<lparr>fs := t1\<rparr>"
    by (auto elim!: fs_op_cases)
  from w have d: "is_dir (fs s) D" and t1: "t1 = put (fs s) (D @ [tn]) (File c)"
    by (auto simp: writeFile_def is_dir_def split: option.splits node.splits if_splits)
  have T1: "lookup_path t1 (D @ [tn]) = Some (File c)" and Q1: "lookup_path t1 (D @ [x]) = lookup_path (fs s) (D @ [x])"
    and d1: "is_dir t1 D" and u1: "unchanged_outside {D @ [x], D @ [tn]} Ds (fs s) t1"
    using d assms(1) by (simp_all add: t1 unchanged_outside_put)
  txt \<open>The deletion that \<open>win32\<close> puts before the rename.\<close>
  define s2 where "s2 = (if win32 s1 then quietly (unlink (D @ [x])) s1 else s1)"
  have run: "fs_op (rename (D @ [tn]) (D @ [x])) s2 = (r, s')"
    using second(2) by (auto simp: replace_target_def s2_def split: if_splits)
  have s2: "quiet s s2 \<and> tab s2 = tab s \<and> calls s2 = calls s \<and> drawn s2 = drawn s \<and> marks s2 = marks s"
    by (cases "unlink (D @ [x]) (fs s1)")
       (auto simp: s2_def s1 quietly_def fs_op_def)
  have fs2: "fs s2 = t1 \<or> (lookup_path t1 (D @ [x]) \<noteq> None \<and> fs s2 = del t1 (D @ [x]))"
    by (cases "unlink (D @ [x]) (fs s1)")
       (auto simp: s2_def s1 quietly_def fs_op_def unlink_def split: option.splits node.splits)
  have T2: "lookup_path (fs s2) (D @ [tn]) = Some (File c)" and d2: "is_dir (fs s2) D"
    and u2: "unchanged_outside {D @ [x], D @ [tn]} Ds (fs s) (fs s2)"
    using fs2 T1 d1 u1 assms(1) by (auto intro: unchanged_outside_del_step)
  from run show ?thesis
  proof (cases rule: fs_op_cases)
    case (fails e)
    have "\<not> replaceable (File c) (lookup_path (fs s2) (D @ [x]))"
      using rename_fails_not_replaceable [OF fails(1) T2] d2 assms(1) by simp
    then have "fs s2 = t1"
      using fs2 by auto
    with fails s2 T1 Q1 u1 show ?thesis by simp
  next
    case (works t3)
    from rename_Inr [OF works(1)] assms(1) T2
    have "t3 = put (del (fs s2) (D @ [tn])) (D @ [x]) (File c)"
      "lookup_path t3 (D @ [x]) = Some (File c)" "lookup_path t3 (D @ [tn]) = None"
      by auto
    with works s2 u2 show ?thesis
      by (auto intro!: unchanged_outside_put_step unchanged_outside_del_step)
  qed
qed

lemma write_retry:
  assumes "tn \<noteq> x" "withRetry_default (write_body (D @ [tn]) (D @ [x]) c) ctx s = (r, s')"
  shows "quiet s s' \<and> tab s' = tab s \<and> calls s' = calls s \<and> drawn s' = drawn s \<and> marks s' = marks s \<and>
         unchanged_outside {D @ [x], D @ [tn]} Ds (fs s) (fs s') \<and>
         (case r of
            Inl e \<Rightarrow> lookup_path (fs s') (D @ [x]) = lookup_path (fs s) (D @ [x]) \<and>
                     (lookup_path (fs s') (D @ [tn]) = lookup_path (fs s) (D @ [tn]) \<or>
                      lookup_path (fs s') (D @ [tn]) = Some (File c))
          | Inr u \<Rightarrow> lookup_path (fs s') (D @ [x]) = Some (File c) \<and>
                     lookup_path (fs s') (D @ [tn]) = None)"
proof -
  let ?base = "\<lambda>s1. quiet s s1 \<and> tab s1 = tab s \<and> calls s1 = calls s \<and> drawn s1 = drawn s \<and>
      marks s1 = marks s \<and> unchanged_outside {D @ [x], D @ [tn]} Ds (fs s) (fs s1)"
  let ?I = "\<lambda>s1. ?base s1 \<and> lookup_path (fs s1) (D @ [x]) = lookup_path (fs s) (D @ [x]) \<and>
                     (lookup_path (fs s1) (D @ [tn]) = lookup_path (fs s) (D @ [tn]) \<or>
                      lookup_path (fs s1) (D @ [tn]) = Some (File c))"
  let ?Q = "\<lambda>(u::unit) s1. ?base s1 \<and> lookup_path (fs s1) (D @ [x]) = Some (File c) \<and>
                     lookup_path (fs s1) (D @ [tn]) = None"
  have "case r of Inl e \<Rightarrow> ?I s' | Inr v \<Rightarrow> ?Q v s'"
    using assms(2)
  proof (rule withRetry_default_rule)
    show "?I s" by simp
  next
    fix s1 d assume "?I s1"
    then show "?I (sleep d s1)" by (simp add: quiet_sleep)
  next
    fix s1 e s2 assume I: "?I s1" and "write_body (D @ [tn]) (D @ [x]) c s1 = (Inl e, s2)"
    from write_body_step [OF assms(1) this(2), of Ds] I show "?I s2"
      by (auto intro: quiet_trans unchanged_outside_trans)
  next
    fix s1 v s2 assume I: "?I s1" and "write_body (D @ [tn]) (D @ [x]) c s1 = (Inr v, s2)"
    from write_body_step [OF assms(1) this(2), of Ds] I show "?Q v s2"
      by (auto intro: quiet_trans unchanged_outside_trans)
  qed
  then show ?thesis by (cases r) auto
qed

section \<open>Summary: atomicWrite\<close>

lemma lookup_None_under: "lookup_path t p = None \<Longrightarrow> prefix p X \<Longrightarrow> lookup_path t X = None"
  using lookup_prefix_exists [of t X p] by (cases "lookup_path t X") auto

lemma prefix_snoc_cases: "prefix X (D @ [y]) \<Longrightarrow> X = D @ [y] \<or> prefix X D"
  by (auto simp: prefix_snoc)

text \<open>
  Dropping from a frame the paths that hold nothing before and after: nothing lies
  under them either.
\<close>

lemma unchanged_outside_drop:
  assumes u: "unchanged_outside (insert (D @ [y]) A) Ds t t'"
    and same: "lookup_path t (D @ [y]) = None" "lookup_path t' (D @ [y]) = None"
    and D: "\<And>X. prefix X D \<Longrightarrow> (\<exists>p\<in>A. prefix X p) \<or> (\<exists>d\<in>Ds. prefix X d)"
  shows "unchanged_outside A Ds t t'"
  unfolding unchanged_outside_def
proof (intro conjI allI impI)
  fix X assume X: "(\<forall>p\<in>A. \<not> prefix p X \<and> \<not> prefix X p) \<and> (\<forall>d\<in>Ds. \<not> prefix X d)"
  show "lookup_path t' X = lookup_path t X"
  proof (cases "prefix (D @ [y]) X")
    case True
    with same show ?thesis by (simp add: lookup_None_under)
  next
    case False
    moreover have "\<not> prefix X (D @ [y])"
    proof
      assume "prefix X (D @ [y])"
      then have "X = D @ [y] \<or> prefix X D" by (rule prefix_snoc_cases)
      with False D [of X] X show False by auto
    qed
    ultimately show ?thesis
      using u X by (intro unchanged_outside_lookup [OF u]) auto
  qed
next
  fix X assume X: "(\<forall>p\<in>A. \<not> prefix p X) \<and> is_dir t X"
  then have "\<not> prefix (D @ [y]) X"
    using same(1) lookup_None_under [of t "D @ [y]" X] by (auto simp: is_dir_def)
  with u X show "is_dir t' X"
    by (intro unchanged_outside_is_dir [OF u]) auto
qed

lemma atomicWrite_summary:
  assumes run: "atomicWrite (D @ [x]) c s = (r, s')"
    and fresh: "lookup_path (fs s) (tempPath (D @ [x]) (rand s (drawn s))) = None"
  shows "quiet s s' \<and> locks (tab s') = locks (tab s) \<and> (tab s = no_locks \<longrightarrow> tab s' = no_locks) \<and>
         unchanged_outside {D @ [x]} {} (fs s) (fs s') \<and>
         lookup_path (fs s') (tempPath (D @ [x]) (rand s (drawn s))) = None \<and>
         lookup_path (fs s') (lockFile (D @ [x])) = lookup_path (fs s) (lockFile (D @ [x])) \<and>
         (case r of
            Inl e \<Rightarrow> lookup_path (fs s') (D @ [x]) = lookup_path (fs s) (D @ [x]) \<and>
                     (marks s' = marks s \<or> marks s' = marks s @ [Acquired (D @ [x]), Released (D @ [x])])
          | Inr u \<Rightarrow> lookup_path (fs s') (D @ [x]) = Some (File c) \<and>
                     marks s' = marks s @ [Acquired (D @ [x]), Released (D @ [x])])"
proof -
  define tn where "tn = ''.'' @ x @ ''.'' @ rand s (drawn s) @ ''.tmp''"
  define ln where "ln = x @ ''.lock''"
  have names: "tn \<noteq> x" "ln \<noteq> x" "tn \<noteq> ln"
    by (simp_all add: tn_def ln_def)
  have T: "tempPath (D @ [x]) (rand s (drawn s)) = D @ [tn]" and L: "lockFile (D @ [x]) = D @ [ln]"
    by (simp_all add: tempPath_snoc lockFile_snoc tn_def ln_def)
  let ?s0 = "s\<lparr>drawn := Suc (drawn s)\<rparr>"
  have q0: "quiet s ?s0" by (simp add: quiet_def)
  from run have run': "and_then (withRetry_default (fs_op (mkdir_p D))
                    (''creating directory '' @ path_string D))
          (\<lambda>u. and_then (acquireLock (D @ [x]))
             (\<lambda>u. finally_do
                     (withRetry_default (write_body (D @ [tn]) (D @ [x]) c)
                        (''atomic write to '' @ path_string (D @ [x])))
                     (\<lambda>s1. unlock (D @ [x]) (quietly (unlink (D @ [tn])) s1)))) ?s0 = (r, s')"
    by (simp add: atomicWrite_def randomBytes_def T)
  from run' show ?thesis
  proof (cases rule: and_then_cases)
    case (first e)
    from mkdir_retry [OF first(1)] first(2) q0 fresh show ?thesis
      by (auto intro: quiet_trans simp: T L)
  next
    case (second v s1)
    from mkdir_retry [OF second(1)]
    have s1: "quiet ?s0 s1" "tab s1 = tab s" "marks s1 = marks s" and mk: "mkdir_p D (fs s) = Inr (fs s1)"
      by auto
    have u1: "unchanged_outside {D @ [x]} {} (fs s) (fs s1)"
      unfolding unchanged_outside_def
      using mk by (auto simp: mkdir_p_lookup mkdir_p_keeps_dirs dest: prefix_snoc_cases
          intro: prefix_order.trans)
    have same1: "lookup_path (fs s1) (D @ [y]) = lookup_path (fs s) (D @ [y])" for y
      using mk by (simp add: mkdir_p_lookup)
    from second(2) show ?thesis
    proof (cases rule: and_then_cases)
      case (first e)
      from acquireLock_summary [OF first(1)] first(2) s1 q0 u1 fresh show ?thesis
        by (auto intro: quiet_trans simp: T L same1)
    next
      case (second v2 s2)
      from acquireLock_summary [OF second(1)] s1
      have s2: "quiet s1 s2" "locks (tab s2) = insert (D @ [x]) (locks (tab s))"
        "tab s = no_locks \<longrightarrow> tab s2 = set_lock no_locks (D @ [x])"
        "marks s2 = marks s @ [Acquired (D @ [x])]"
        and L1: "lookup_path (fs s1) (D @ [ln]) = None" and d1: "is_dir (fs s1) D"
        by (auto simp: ln_def)
      from acquireLock_summary [OF second(1)] obtain lockId
        where fs2: "fs s2 = put (fs s1) (D @ [ln]) (File lockId)"
        by (auto simp: ln_def)
      from second(2) obtain s3 where
        w: "withRetry_default (write_body (D @ [tn]) (D @ [x]) c)
              (''atomic write to '' @ path_string (D @ [x])) s2 = (r, s3)"
        and s': "s' = unlock (D @ [x]) (quietly (unlink (D @ [tn])) s3)"
        by (rule finally_do_cases)
      note wr = write_retry [OF names(1) w, of "{}"]
      from wr have s3: "quiet s2 s3" "tab s3 = tab s2" "marks s3 = marks s2"
        and u3: "unchanged_outside {D @ [x], D @ [tn]} {} (fs s2) (fs s3)"
        by auto
      have L3: "lookup_path (fs s3) (D @ [ln]) = Some (File lockId)"
        using unchanged_outside_lookup [OF u3, of "D @ [ln]"] names d1 by (simp add: fs2)
      have d3: "is_dir (fs s3) D"
        using unchanged_outside_is_dir [OF u3, of D] d1 by (simp add: fs2)
      have T2: "lookup_path (fs s2) (D @ [tn]) = None"
        using fresh names by (simp add: fs2 same1 T)
      have Q2: "lookup_path (fs s2) (D @ [x]) = lookup_path (fs s) (D @ [x])"
        using names by (simp add: fs2 same1)
      txt \<open>The clean-up: the temporary file, if still there, is a file and is removed.\<close>
      define s4 where "s4 = quietly (unlink (D @ [tn])) s3"
      have T3: "lookup_path (fs s3) (D @ [tn]) = None \<or> lookup_path (fs s3) (D @ [tn]) = Some (File c)"
        using wr T2 by (cases r) auto
      then have fs4: "fs s4 = del (fs s3) (D @ [tn]) \<or> (fs s4 = fs s3 \<and> lookup_path (fs s3) (D @ [tn]) = None)"
        by (auto simp: s4_def quietly_def fs_op_def unlink_def)
      have s4: "quiet s3 s4" "tab s4 = tab s3" "marks s4 = marks s3"
        by (cases "unlink (D @ [tn]) (fs s3)"; simp add: s4_def quietly_def fs_op_def)+
      have T4: "lookup_path (fs s4) (D @ [tn]) = None"
        and L4: "lookup_path (fs s4) (D @ [ln]) = Some (File lockId)"
        and Q4: "lookup_path (fs s4) (D @ [x]) = lookup_path (fs s3) (D @ [x])"
        and u4: "unchanged_outside {D @ [x], D @ [tn]} {} (fs s2) (fs s4)"
        using fs4 L3 names u3 by (auto intro: unchanged_outside_del_step)
      note un = unlock_summary [of s4 D x]
      from un L4 have fs': "fs s' = del (fs s4) (D @ [ln])"
        by (simp add: s' s4_def [symmetric] ln_def)
      have "unchanged_outside {D @ [x], D @ [tn], D @ [ln]} {} (fs s1) (fs s2)"
        by (simp add: fs2 unchanged_outside_put)
      moreover have "unchanged_outside {D @ [x], D @ [tn], D @ [ln]} {} (fs s2) (fs s4)"
        using u4 by (rule unchanged_outside_mono) auto
      moreover have "unchanged_outside {D @ [x], D @ [tn], D @ [ln]} {} (fs s4) (fs s')"
        by (simp add: fs' unchanged_outside_del)
      ultimately have "unchanged_outside {D @ [x], D @ [tn], D @ [ln]} {} (fs s1) (fs s')"
        by (blast intro: unchanged_outside_trans)
      moreover have T': "lookup_path (fs s') (D @ [tn]) = None" and L': "lookup_path (fs s') (D @ [ln]) = None"
        and Q': "lookup_path (fs s') (D @ [x]) = lookup_path (fs s3) (D @ [x])"
        using T4 Q4 names by (simp_all add: fs')
      moreover have "lookup_path (fs s1) (D @ [tn]) = None"
        using fresh by (simp add: same1 T)
      ultimately have "unchanged_outside {D @ [x]} {} (fs s1) (fs s')"
      proof -
        assume all: "unchanged_outside {D @ [x], D @ [tn], D @ [ln]} {} (fs s1) (fs s')"
          and T1: "lookup_path (fs s1) (D @ [tn]) = None"
        have "{D @ [x], D @ [tn], D @ [ln]} = insert (D @ [ln]) {D @ [x], D @ [tn]}" by auto
        with all have "unchanged_outside (insert (D @ [ln]) {D @ [x], D @ [tn]}) {} (fs s1) (fs s')"
          by simp
        then have "unchanged_outside {D @ [x], D @ [tn]} {} (fs s1) (fs s')"
          using L1 L' by (rule unchanged_outside_drop) auto
        then have "unchanged_outside (insert (D @ [tn]) {D @ [x]}) {} (fs s1) (fs s')"
          by (simp add: insert_commute)
        then show ?thesis
          using T1 T' by (rule unchanged_outside_drop) auto
      qed
      with u1 have frame: "unchanged_outside {D @ [x]} {} (fs s) (fs s')"
        by (rule unchanged_outside_trans)
      have "quiet s4 s'"
        using un by (simp add: s' s4_def [symmetric])
      then have q: "quiet s s'"
        using q0 s1(1) s2(1) s3(1) s4(1) by (blast intro: quiet_trans)
      have tab': "tab s' = snd (shift_queue (delete_lock (tab s2) (D @ [x])) (D @ [x]))"
        using un s3 s4 by (simp add: s' s4_def [symmetric])
      have lk: "locks (tab s') = locks (tab s)"
      proof -
        from acquireLock_summary [OF second(1)] have "D @ [x] \<notin> locks (tab s1)"
          by auto
        then show ?thesis
          using s2(2) s1(2) by (auto simp: tab' delete_lock_def)
      qed
      have nl: "tab s = no_locks \<longrightarrow> tab s' = no_locks"
        using s2(3) by (auto simp: tab')
      have mk': "marks s' = marks s @ [Acquired (D @ [x]), Released (D @ [x])]"
        using un s2(4) s3(3) s4(3) by (simp add: s' s4_def [symmetric])
      show ?thesis
        using q lk nl frame T' L' L1 Q' mk' wr Q2
        by (cases r) (auto simp: T L same1)
    qed
  qed
qed

section \<open>Summaries: the copy\<close>

text \<open>The rule for \<open>withRetry\<close> once more, telling the state before an attempt from the
  state after a failed one.\<close>

lemma withRetry_loop_rule2:
  assumes "withRetry_loop i le operation ctx n s = (r, s')"
    and "i \<le> n"
    and "A s"
    and "\<And>s e s1. A s \<Longrightarrow> operation s = (Inl e, s1) \<Longrightarrow> B s1"
    and "\<And>s d. B s \<Longrightarrow> A (sleep d s) \<and> B (sleep d s)"
    and "\<And>s v s1. A s \<Longrightarrow> operation s = (Inr v, s1) \<Longrightarrow> Q v s1"
  shows "case r of Inl e \<Rightarrow> B s' | Inr v \<Rightarrow> Q v s'"
  using assms
proof (induction i le operation ctx n s rule: withRetry_loop.induct)
  case (1 i le operation ctx maxRetries s)
  note run = "1.prems"(1) [unfolded withRetry_loop.simps [of i le operation ctx maxRetries s]]
    and within = "1.prems"(2) and inv = "1.prems"(3)
    and fail = "1.prems"(4) and slp = "1.prems"(5) and succ = "1.prems"(6)
  obtain r1 s1 where op: "operation s = (r1, s1)" by (cases "operation s")
  show ?case
  proof (cases r1)
    case (Inr v)
    with op inv succ have "Q v s1" by blast
    with Inr op within run show ?thesis
      by auto
  next
    case (Inl e)
    with op inv fail have I1: "B s1" by blast
    show ?thesis
    proof (cases "i = maxRetries")
      case True
      with Inl op within run I1 show ?thesis
        by auto
    next
      case ne: False
      let ?s2 = "sleep (RETRY_DELAYS ! min i (length RETRY_DELAYS - 1)) s1"
      have I2: "A ?s2" "B ?s2" using I1 slp by blast+
      show ?thesis
      proof (cases "is_permanent e")
        case True
        with Inl op within ne run I2 show ?thesis
          by (auto simp: Let_def)
      next
        case False
        with Inl op within ne run
        have "withRetry_loop (i + 1) (Some e) operation ctx maxRetries ?s2 = (r, s')"
          by (simp add: Let_def)
        moreover have "i + 1 \<le> maxRetries" using within ne by simp
        ultimately show ?thesis
          using "1.IH" [OF within op [symmetric] _ ne refl refl False _ _ I2(1) fail slp succ] Inl
          by simp
      qed
    qed
  qed
qed

lemma withRetry_rule2:
  assumes "withRetry operation ctx n s = (r, s')"
    and "A s"
    and "\<And>s e s1. A s \<Longrightarrow> operation s = (Inl e, s1) \<Longrightarrow> B s1"
    and "\<And>s d. B s \<Longrightarrow> A (sleep d s) \<and> B (sleep d s)"
    and "\<And>s v s1. A s \<Longrightarrow> operation s = (Inr v, s1) \<Longrightarrow> Q v s1"
  shows "case r of Inl e \<Rightarrow> B s' | Inr v \<Rightarrow> Q v s'"
  using assms(1) unfolding withRetry_def
  by (rule withRetry_loop_rule2 [where A = A and B = B]) (use assms in auto)

lemma withRetry_default_rule2:
  assumes "withRetry_default operation ctx s = (r, s')"
    and "A s"
    and "\<And>s e s1. A s \<Longrightarrow> operation s = (Inl e, s1) \<Longrightarrow> B s1"
    and "\<And>s d. B s \<Longrightarrow> A (sleep d s) \<and> B (sleep d s)"
    and "\<And>s v s1. A s \<Longrightarrow> operation s = (Inr v, s1) \<Longrightarrow> Q v s1"
  shows "case r of Inl e \<Rightarrow> B s' | Inr v \<Rightarrow> Q v s'"
  using assms(1) unfolding withRetry_default_def
  by (rule withRetry_rule2 [where A = A and B = B]) (use assms in auto)

lemma withRetry_first: "operation s = (Inr v, s1) \<Longrightarrow> withRetry operation ctx n s = (Inr v, s1)"
  by (simp add: withRetry_def withRetry_loop.simps [of 0])

lemma withRetry_default_first:
  "operation s = (Inr v, s1) \<Longrightarrow> withRetry_default operation ctx s = (Inr v, s1)"
  by (simp add: withRetry_default_def withRetry_first)

lemma mkdir_retry_existing:
  "is_dir (fs s) D \<Longrightarrow> withRetry_default (fs_op (mkdir_p D)) ctx s = (Inr (), s)"
  by (rule withRetry_default_first) (simp add: fs_op_def mkdir_p_existing)

lemma acquireLock_succeeds:
  assumes "\<not> has_lock (tab s) (D @ [x])" "lookup_path (fs s) (D @ [x @ ''.lock'']) = None" "is_dir (fs s) D"
  shows "fst (acquireLock (D @ [x]) s) = Inr ()"
proof -
  let ?s1 = "s\<lparr>drawn := Suc (drawn s), tab := set_lock (tab s) (D @ [x])\<rparr>"
  from assms obtain es where "lookup_path (fs s) D = Some (Dir es)"
    by (auto simp: is_dir_def)
  with assms have "fs_op (writeFile (D @ [x @ ''.lock'']) (rand s (drawn s)) True) ?s1 =
      (Inr (), ?s1\<lparr>fs := put (fs s) (D @ [x @ ''.lock'']) (File (rand s (drawn s)))\<rparr>)"
    by (simp add: fs_op_def writeFile_def)
  then have "withRetry (fs_op (writeFile (D @ [x @ ''.lock'']) (rand s (drawn s)) True))
      (''acquiring lock on '' @ path_string (D @ [x])) 3 ?s1 =
      (Inr (), ?s1\<lparr>fs := put (fs s) (D @ [x @ ''.lock'']) (File (rand s (drawn s)))\<rparr>)"
    by (rule withRetry_first)
  with assms(1) show ?thesis
    by (simp add: acquireLock_def randomBytes_def lockFile_snoc)
qed

lemma kind_dir_overlay [simp]: "kind_dir (overlay n old) = kind_dir n"
  by (cases "(n, old)" rule: overlay.cases) simp_all

text \<open>What \<open>fs.cp\<close> and \<open>fs.copyFile\<close> put at a destination \<open>D/tn\<close>.\<close>

lemma cp_Inr:
  assumes "cp S (D @ [tn]) t = Inr t'"
  shows "\<exists>n m. lookup_path t S = Some n \<and> is_dir t D \<and> t' = put t (D @ [tn]) m \<and>
               (lookup_path t (D @ [tn]) = None \<longrightarrow> m = n) \<and> kind_dir m = kind_dir n"
proof -
  from assms obtain n where n: "lookup_path t S = Some n"
    by (auto simp: cp_def split: option.splits)
  from assms n have d: "is_dir t D"
    by (auto simp: cp_def is_dir_def split: option.splits node.splits if_splits)
  from assms n d obtain m where m: "t' = put t (D @ [tn]) m"
    "lookup_path t (D @ [tn]) = None \<longrightarrow> m = n" "kind_dir m = kind_dir n"
    by (cases n; cases "lookup_path t (D @ [tn])")
       (auto simp: cp_def is_dir_def split: option.splits node.splits if_splits)
  show ?thesis
    by (rule exI [of _ n], rule exI [of _ m]) (use n d m in simp)
qed

lemma cp_succeeds:
  assumes "lookup_path t S = Some n" "is_dir t D" "\<not> prefix S (D @ [tn])"
    "lookup_path t (D @ [tn]) = None \<or> (kind_dir n \<and> is_dir t (D @ [tn]))"
  shows "\<exists>t'. cp S (D @ [tn]) t = Inr t'"
  using assms by (cases n) (auto simp: cp_def is_dir_def)

lemma copyFile_Inr:
  assumes "copyFile S (D @ [tn]) t = Inr t'"
  shows "\<exists>c. lookup_path t S = Some (File c) \<and> is_dir t D \<and> t' = put t (D @ [tn]) (File c)"
  using assms
  by (auto simp: copyFile_def writeFile_def is_dir_def split: option.splits node.splits if_splits)

lemma copyFile_succeeds:
  assumes "lookup_path t S = Some (File c)" "is_dir t D" "lookup_path t (D @ [tn]) = None"
  shows "copyFile S (D @ [tn]) t = Inr (put t (D @ [tn]) (File c))"
  using assms by (auto simp: copyFile_def writeFile_def is_dir_def)

section \<open>Summary: atomicCopy\<close>

lemma rename_Inr_replaceable:
  assumes "rename src dst t = Inr t'" "src \<noteq> dst" "lookup_path t src = Some n"
  shows "replaceable n (lookup_path t dst)"
  using assms
  by (cases "(n, lookup_path t dst)" rule: replaceable.cases)
     (auto simp: rename_def split: option.splits node.splits list.splits if_splits)

lemma copy_part:
  assumes "(if dir then fs_op (cp S (D @ [tn]))
            else and_then (fs_op (copyFile S (D @ [tn])))
                   (\<lambda>u. if opt = Some True then fs_op (utimes (D @ [tn]))
                         else (\<lambda>s1. (Inr (), s1)))) s = (r1, s1)"
  shows "case r1 of
           Inl e \<Rightarrow> s1 = s
         | Inr u \<Rightarrow> \<exists>n m. lookup_path (fs s) S = Some n \<and> is_dir (fs s) D \<and>
                      s1 = s\<lparr>fs := put (fs s) (D @ [tn]) m\<rparr> \<and>
                      (lookup_path (fs s) (D @ [tn]) = None \<longrightarrow> m = n) \<and> kind_dir m = kind_dir n"
proof (cases dir)
  case True
  with assms have "fs_op (cp S (D @ [tn])) s = (r1, s1)" by simp
  then show ?thesis
  proof (cases rule: fs_op_cases)
    case (works t)
    from cp_Inr [OF works(1)] works show ?thesis by auto
  qed simp
next
  case False
  with assms have "and_then (fs_op (copyFile S (D @ [tn])))
                   (\<lambda>u. if opt = Some True then fs_op (utimes (D @ [tn]))
                         else (\<lambda>s1. (Inr (), s1))) s = (r1, s1)" by simp
  then show ?thesis
  proof (cases rule: and_then_cases)
    case (first e)
    then show ?thesis by (auto elim!: fs_op_cases)
  next
    case (second v s2)
    from second(1) obtain t where t: "copyFile S (D @ [tn]) (fs s) = Inr t" "s2 = s\<lparr>fs := t\<rparr>"
      by (auto elim!: fs_op_cases)
    from copyFile_Inr [OF t(1)] obtain c where c: "lookup_path (fs s) S = Some (File c)"
      "is_dir (fs s) D" "t = put (fs s) (D @ [tn]) (File c)"
      by auto
    then have "lookup_path t (D @ [tn]) = Some (File c)" by simp
    then have "utimes (D @ [tn]) t = Inr t" by (simp add: utimes_def)
    with second(2) t(2) have "r1 = Inr ()" "s1 = s2"
      by (auto simp: fs_op_def split: if_splits)
    with c t show ?thesis by auto
  qed
qed

lemma copy_body_step:
  assumes "tn \<noteq> x" "copy_body S (D @ [tn]) (D @ [x]) opt s = (r, s')"
  shows "quiet s s' \<and> tab s' = tab s \<and> calls s' = calls s \<and> drawn s' = drawn s \<and> marks s' = marks s \<and>
         unchanged_outside {D @ [x], D @ [tn]} Ds (fs s) (fs s') \<and>
         (case r of
            Inl e \<Rightarrow>
              lookup_path (fs s') (D @ [x]) = lookup_path (fs s) (D @ [x]) \<and>
              (fs s' = fs s \<or>
               (\<not> win32 s \<and>
                (\<exists>n m. lookup_path (fs s) S = Some n \<and> is_dir (fs s) D \<and>
                       fs s' = put (fs s) (D @ [tn]) m \<and>
                       (lookup_path (fs s) (D @ [tn]) = None \<longrightarrow> m = n) \<and> kind_dir m = kind_dir n \<and>
                       \<not> replaceable m (lookup_path (fs s) (D @ [x])))))
          | Inr u \<Rightarrow>
              lookup_path (fs s') (D @ [tn]) = None \<and>
              (\<exists>n m. lookup_path (fs s) S = Some n \<and>
                     (lookup_path (fs s) (D @ [tn]) = None \<longrightarrow> m = n) \<and> kind_dir m = kind_dir n \<and>
                     (win32 s \<or> replaceable m (lookup_path (fs s) (D @ [x]))) \<and>
                     lookup_path (fs s') (D @ [x]) = Some m))"
proof (cases "stat S s")
  case (Inl e)
  with assms(2) show ?thesis by (auto simp: copy_body_def)
next
  case (Inr sourceStats)
  with assms(2) have "and_then
            (if isDirectory sourceStats then fs_op (cp S (D @ [tn]))
             else and_then (fs_op (copyFile S (D @ [tn])))
                    (\<lambda>u. if opt = Some True then fs_op (utimes (D @ [tn]))
                          else (\<lambda>s1. (Inr (), s1))))
            (\<lambda>u. replace_target rm_rf (D @ [tn]) (D @ [x])) s = (r, s')"
    by (simp add: copy_body_def)
  then show ?thesis
  proof (cases rule: and_then_cases)
    case (first e)
    from copy_part [OF first(1)] first(2) show ?thesis by simp
  next
    case (second v s1)
    from copy_part [OF second(1)] obtain n m where n: "lookup_path (fs s) S = Some n"
      and d: "is_dir (fs s) D" and s1: "s1 = s\<lparr>fs := put (fs s) (D @ [tn]) m\<rparr>"
      and m: "lookup_path (fs s) (D @ [tn]) = None \<longrightarrow> m = n" "kind_dir m = kind_dir n"
      by auto
    let ?t1 = "put (fs s) (D @ [tn]) m"
    have T1: "lookup_path ?t1 (D @ [tn]) = Some m"
      and Q1: "lookup_path ?t1 (D @ [x]) = lookup_path (fs s) (D @ [x])"
      and d1: "is_dir ?t1 D" and u1: "unchanged_outside {D @ [x], D @ [tn]} Ds (fs s) ?t1"
      using d assms(1) by (simp_all add: unchanged_outside_put)
    define s2 where "s2 = (if win32 s1 then quietly (rm_rf (D @ [x])) s1 else s1)"
    have run: "fs_op (rename (D @ [tn]) (D @ [x])) s2 = (r, s')"
      using second(2) by (auto simp: replace_target_def s2_def split: if_splits)
    have s2: "quiet s s2 \<and> tab s2 = tab s \<and> calls s2 = calls s \<and> drawn s2 = drawn s \<and> marks s2 = marks s"
      by (auto simp: s2_def s1 quietly_def fs_op_def rm_rf_def)
    have fs2: "fs s2 = (if win32 s then del ?t1 (D @ [x]) else ?t1)"
      by (auto simp: s2_def s1 quietly_def fs_op_def rm_rf_def)
    have T2: "lookup_path (fs s2) (D @ [tn]) = Some m" and d2: "is_dir (fs s2) D"
      and u2: "unchanged_outside {D @ [x], D @ [tn]} Ds (fs s) (fs s2)"
      using fs2 T1 d1 u1 assms(1) by (auto intro: unchanged_outside_del_step)
    from run show ?thesis
    proof (cases rule: fs_op_cases)
      case (fails e)
      have nr: "\<not> replaceable m (lookup_path (fs s2) (D @ [x]))"
        using rename_fails_not_replaceable [OF fails(1) T2] d2 assms(1) by simp
      then have w: "\<not> win32 s"
        by (auto simp: fs2)
      with nr have "\<not> replaceable m (lookup_path (fs s) (D @ [x]))" "fs s2 = ?t1"
        by (simp_all add: fs2 Q1)
      with fails s2 Q1 u1 w n d m show ?thesis by auto
    next
      case (works t3)
      from rename_Inr [OF works(1)] assms(1) T2
      have "t3 = put (del (fs s2) (D @ [tn])) (D @ [x]) m"
        "lookup_path t3 (D @ [x]) = Some m" "lookup_path t3 (D @ [tn]) = None"
        by auto
      moreover have "win32 s \<or> replaceable m (lookup_path (fs s) (D @ [x]))"
        using rename_Inr_replaceable [OF works(1)] assms(1) T2 by (cases "win32 s") (auto simp: fs2 Q1)
      ultimately show ?thesis
        using works s2 u2 n m
        by (auto intro!: unchanged_outside_put_step unchanged_outside_del_step)
    qed
  qed
qed

text \<open>
  \<open>atomicCopy\<close> in general. \<open>J\<close> holds of the tree before each attempt of the copy,
  \<open>J'\<close> after a failed one, and \<open>K\<close> of what a successful one leaves at the target.
\<close>

lemma atomicCopy_summary:
  fixes J J' :: "node \<Rightarrow> bool" and K :: "node option \<Rightarrow> bool"
  assumes run: "atomicCopy S (D @ [x]) opt s = (r, s')"
    and fresh: "lookup_path (fs s) (tempPath (D @ [x]) (rand s (drawn s))) = None"
    and J0: "\<And>t1 lockId. mkdir_p D (fs s) = Inr t1 \<Longrightarrow> lookup_path t1 (lockFile (D @ [x])) = None \<Longrightarrow>
               J (put t1 (lockFile (D @ [x])) (File lockId))"
    and Jfail: "\<And>s1 e s2. J (fs s1) \<Longrightarrow> win32 s1 = win32 s \<Longrightarrow>
               copy_body S (tempPath (D @ [x]) (rand s (drawn s))) (D @ [x]) opt s1 = (Inl e, s2) \<Longrightarrow>
               J' (fs s2)"
    and Jsleep: "\<And>t. J' t \<Longrightarrow> J t"
    and Jok: "\<And>s1 u s2. J (fs s1) \<Longrightarrow> win32 s1 = win32 s \<Longrightarrow>
               copy_body S (tempPath (D @ [x]) (rand s (drawn s))) (D @ [x]) opt s1 = (Inr u, s2) \<Longrightarrow>
               K (lookup_path (fs s2) (D @ [x]))"
  shows "quiet s s' \<and> locks (tab s') = locks (tab s) \<and> (tab s = no_locks \<longrightarrow> tab s' = no_locks) \<and>
         unchanged_outside {D @ [x]} {} (fs s) (fs s') \<and>
         lookup_path (fs s') (tempPath (D @ [x]) (rand s (drawn s))) = None \<and>
         lookup_path (fs s') (lockFile (D @ [x])) = lookup_path (fs s) (lockFile (D @ [x])) \<and>
         (case r of
            Inl e \<Rightarrow> lookup_path (fs s') (D @ [x]) = lookup_path (fs s) (D @ [x])
          | Inr u \<Rightarrow> lookup_path (fs s') (D @ [x]) \<noteq> None \<and> K (lookup_path (fs s') (D @ [x]))) \<and>
         (is_dir (fs s) D \<and> \<not> has_lock (tab s) (D @ [x]) \<and>
          lookup_path (fs s) (lockFile (D @ [x])) = None \<and> (\<forall>t. \<not> J' t) \<longrightarrow> r = Inr ())"
proof -
  define tn where "tn = ''.'' @ x @ ''.'' @ rand s (drawn s) @ ''.tmp''"
  define ln where "ln = x @ ''.lock''"
  have names: "tn \<noteq> x" "ln \<noteq> x" "tn \<noteq> ln"
    by (simp_all add: tn_def ln_def)
  have T: "tempPath (D @ [x]) (rand s (drawn s)) = D @ [tn]" and L: "lockFile (D @ [x]) = D @ [ln]"
    by (simp_all add: tempPath_snoc lockFile_snoc tn_def ln_def)
  note J0 = J0 [unfolded L] and Jfail = Jfail [unfolded T] and Jok = Jok [unfolded T]
  let ?s0 = "s\<lparr>drawn := Suc (drawn s)\<rparr>"
  let ?ctx = "''atomic copy from '' @ path_string S @ '' to '' @ path_string (D @ [x])"
  have q0: "quiet s ?s0" by (simp add: quiet_def)
  from run have run': "and_then (withRetry_default (fs_op (mkdir_p D))
                    (''creating directory '' @ path_string D))
          (\<lambda>u. and_then (acquireLock (D @ [x]))
             (\<lambda>u. finally_do
                     (withRetry_default (copy_body S (D @ [tn]) (D @ [x]) opt) ?ctx)
                     (\<lambda>s1. unlock (D @ [x]) (quietly (rm_rf (D @ [tn])) s1)))) ?s0 = (r, s')"
    by (simp add: atomicCopy_def randomBytes_def T)
  from run' show ?thesis
  proof (cases rule: and_then_cases)
    case (first e)
    have "\<not> is_dir (fs s) D"
    proof
      assume "is_dir (fs s) D"
      then have "is_dir (fs ?s0) D" by simp
      from mkdir_retry_existing [OF this] first(1) show False by simp
    qed
    with mkdir_retry [OF first(1)] first(2) q0 fresh show ?thesis
      by (auto intro: quiet_trans simp: T L)
  next
    case (second v s1)
    from mkdir_retry [OF second(1)]
    have s1: "quiet ?s0 s1" "tab s1 = tab s" and mk: "mkdir_p D (fs s) = Inr (fs s1)"
      by auto
    have w1: "win32 s1 = win32 s" using s1(1) by (simp add: quiet_def)
    have u1: "unchanged_outside {D @ [x]} {} (fs s) (fs s1)"
      unfolding unchanged_outside_def
      using mk by (auto simp: mkdir_p_lookup mkdir_p_keeps_dirs dest: prefix_snoc_cases
          intro: prefix_order.trans)
    have same1: "lookup_path (fs s1) (D @ [y]) = lookup_path (fs s) (D @ [y])" for y
      using mk by (simp add: mkdir_p_lookup)
    have d1': "is_dir (fs s1) D" using mk by (rule mkdir_p_is_dir)
    from second(2) show ?thesis
    proof (cases rule: and_then_cases)
      case (first e)
      have "\<not> (\<not> has_lock (tab s) (D @ [x]) \<and> lookup_path (fs s) (D @ [ln]) = None)"
      proof
        assume "\<not> has_lock (tab s) (D @ [x]) \<and> lookup_path (fs s) (D @ [ln]) = None"
        with acquireLock_succeeds [of s1 D x] s1(2) d1' first(1) show False
          by (simp add: same1 ln_def)
      qed
      with acquireLock_summary [OF first(1)] first(2) s1 q0 u1 fresh show ?thesis
        by (auto intro: quiet_trans simp: T L same1)
    next
      case (second v2 s2)
      from acquireLock_summary [OF second(1)] s1
      have s2: "quiet s1 s2" "locks (tab s2) = insert (D @ [x]) (locks (tab s))"
        "tab s = no_locks \<longrightarrow> tab s2 = set_lock no_locks (D @ [x])"
        "D @ [x] \<notin> locks (tab s)"
        and L1: "lookup_path (fs s1) (D @ [ln]) = None" and d1: "is_dir (fs s1) D"
        by (auto simp: ln_def)
      from acquireLock_summary [OF second(1)] obtain lockId
        where fs2: "fs s2 = put (fs s1) (D @ [ln]) (File lockId)"
        by (auto simp: ln_def)
      have w2: "win32 s2 = win32 s" using s2(1) w1 by (simp add: quiet_def)
      from second(2) obtain s3 where
        w: "withRetry_default (copy_body S (D @ [tn]) (D @ [x]) opt) ?ctx s2 = (r, s3)"
        and s': "s' = unlock (D @ [x]) (quietly (rm_rf (D @ [tn])) s3)"
        by (rule finally_do_cases)
      let ?base = "\<lambda>s1. quiet s2 s1 \<and> tab s1 = tab s2 \<and>
          unchanged_outside {D @ [x], D @ [tn]} {} (fs s2) (fs s1) \<and>
          lookup_path (fs s1) (D @ [x]) = lookup_path (fs s2) (D @ [x])"
      let ?A = "\<lambda>s1. ?base s1 \<and> J (fs s1)"
      let ?B = "\<lambda>s1. ?base s1 \<and> J' (fs s1)"
      let ?Q = "\<lambda>(u::unit) s1. quiet s2 s1 \<and> tab s1 = tab s2 \<and>
          unchanged_outside {D @ [x], D @ [tn]} {} (fs s2) (fs s1) \<and>
          lookup_path (fs s1) (D @ [x]) \<noteq> None \<and> K (lookup_path (fs s1) (D @ [x]))"
      have wr: "case r of Inl e \<Rightarrow> ?B s3 | Inr v \<Rightarrow> ?Q v s3"
        using w
      proof (rule withRetry_default_rule2 [where A = ?A and B = ?B])
        show "?A s2" using J0 [OF mk] L1 by (simp add: fs2 same1)
      next
        fix s4 d assume "?B s4"
        then show "?A (sleep d s4) \<and> ?B (sleep d s4)" by (auto simp: quiet_sleep Jsleep)
      next
        fix s4 e s5 assume A: "?A s4" and c: "copy_body S (D @ [tn]) (D @ [x]) opt s4 = (Inl e, s5)"
        from A w2 have w4: "win32 s4 = win32 s" by (simp add: quiet_def)
        from copy_body_step [OF names(1) c, of "{}"] A Jfail [OF _ w4 c] show "?B s5"
          by (auto intro: quiet_trans unchanged_outside_trans)
      next
        fix s4 v s5 assume A: "?A s4" and c: "copy_body S (D @ [tn]) (D @ [x]) opt s4 = (Inr v, s5)"
        from A w2 have w4: "win32 s4 = win32 s" by (simp add: quiet_def)
        from copy_body_step [OF names(1) c, of "{}"] A Jok [OF _ w4 c] show "?Q v s5"
          by (auto intro: quiet_trans unchanged_outside_trans)
      qed
      then have s3: "quiet s2 s3" "tab s3 = tab s2"
        and u3: "unchanged_outside {D @ [x], D @ [tn]} {} (fs s2) (fs s3)"
        by (cases r; simp)+
      have L3: "lookup_path (fs s3) (D @ [ln]) = Some (File lockId)"
        using unchanged_outside_lookup [OF u3, of "D @ [ln]"] names d1 by (simp add: fs2)
      have Q2: "lookup_path (fs s2) (D @ [x]) = lookup_path (fs s) (D @ [x])"
        using names by (simp add: fs2 same1)
      define s4 where "s4 = quietly (rm_rf (D @ [tn])) s3"
      have fs4: "fs s4 = del (fs s3) (D @ [tn])"
        by (simp add: s4_def quietly_def fs_op_def rm_rf_def)
      have s4: "quiet s3 s4" "tab s4 = tab s3"
        by (simp_all add: s4_def quietly_def fs_op_def rm_rf_def)
      have T4: "lookup_path (fs s4) (D @ [tn]) = None"
        and L4: "lookup_path (fs s4) (D @ [ln]) = Some (File lockId)"
        and Q4: "lookup_path (fs s4) (D @ [x]) = lookup_path (fs s3) (D @ [x])"
        and u4: "unchanged_outside {D @ [x], D @ [tn]} {} (fs s2) (fs s4)"
        using fs4 L3 names u3 by (auto intro: unchanged_outside_del_step)
      note un = unlock_summary [of s4 D x]
      from un L4 have fs': "fs s' = del (fs s4) (D @ [ln])"
        by (simp add: s' s4_def [symmetric] ln_def)
      have "unchanged_outside {D @ [x], D @ [tn], D @ [ln]} {} (fs s1) (fs s2)"
        by (simp add: fs2 unchanged_outside_put)
      moreover have "unchanged_outside {D @ [x], D @ [tn], D @ [ln]} {} (fs s2) (fs s4)"
        using u4 by (rule unchanged_outside_mono) auto
      moreover have "unchanged_outside {D @ [x], D @ [tn], D @ [ln]} {} (fs s4) (fs s')"
        by (simp add: fs' unchanged_outside_del)
      ultimately have "unchanged_outside {D @ [x], D @ [tn], D @ [ln]} {} (fs s1) (fs s')"
        by (blast intro: unchanged_outside_trans)
      moreover have T': "lookup_path (fs s') (D @ [tn]) = None" and L': "lookup_path (fs s') (D @ [ln]) = None"
        and Q': "lookup_path (fs s') (D @ [x]) = lookup_path (fs s3) (D @ [x])"
        using T4 Q4 names by (simp_all add: fs')
      moreover have "lookup_path (fs s1) (D @ [tn]) = None"
        using fresh by (simp add: same1 T)
      ultimately have "unchanged_outside {D @ [x]} {} (fs s1) (fs s')"
      proof -
        assume all: "unchanged_outside {D @ [x], D @ [tn], D @ [ln]} {} (fs s1) (fs s')"
          and T1: "lookup_path (fs s1) (D @ [tn]) = None"
        have "{D @ [x], D @ [tn], D @ [ln]} = insert (D @ [ln]) {D @ [x], D @ [tn]}" by auto
        with all have "unchanged_outside (insert (D @ [ln]) {D @ [x], D @ [tn]}) {} (fs s1) (fs s')"
          by simp
        then have "unchanged_outside {D @ [x], D @ [tn]} {} (fs s1) (fs s')"
          using L1 L' by (rule unchanged_outside_drop) auto
        then have "unchanged_outside (insert (D @ [tn]) {D @ [x]}) {} (fs s1) (fs s')"
          by (simp add: insert_commute)
        then show ?thesis
          using T1 T' by (rule unchanged_outside_drop) auto
      qed
      with u1 have frame: "unchanged_outside {D @ [x]} {} (fs s) (fs s')"
        by (rule unchanged_outside_trans)
      have "quiet s4 s'"
        using un by (simp add: s' s4_def [symmetric])
      then have q: "quiet s s'"
        using q0 s1(1) s2(1) s3(1) s4(1) by (blast intro: quiet_trans)
      have tab': "tab s' = snd (shift_queue (delete_lock (tab s2) (D @ [x])) (D @ [x]))"
        using un s3 s4 by (simp add: s' s4_def [symmetric])
      have lk: "locks (tab s') = locks (tab s)"
        using s2(2,4) by (auto simp: tab' delete_lock_def)
      have nl: "tab s = no_locks \<longrightarrow> tab s' = no_locks"
        using s2(3) by (auto simp: tab')
      have ok: "(\<forall>t. \<not> J' t) \<longrightarrow> r = Inr ()"
        using wr by (cases r) auto
      show ?thesis
        using q lk nl frame T' L' L1 Q' wr Q2 ok
        by (cases r) (auto simp: T L same1)
    qed
  qed
qed

lemma copy_body_succeeds:
  assumes "tn \<noteq> x" "lookup_path (fs s) S = Some n" "is_dir (fs s) D"
    "lookup_path (fs s) (D @ [tn]) = None" "\<not> prefix S (D @ [tn])"
    "win32 s \<or> replaceable n (lookup_path (fs s) (D @ [x]))"
  shows "\<exists>s'. copy_body S (D @ [tn]) (D @ [x]) opt s = (Inr (), s')"
proof -
  let ?t1 = "put (fs s) (D @ [tn]) n"
  let ?s1 = "s\<lparr>fs := ?t1\<rparr>"
  have copy: "(if kind_dir n then fs_op (cp S (D @ [tn]))
             else and_then (fs_op (copyFile S (D @ [tn])))
                    (\<lambda>u. if opt = Some True then fs_op (utimes (D @ [tn]))
                          else (\<lambda>s1. (Inr (), s1)))) s = (Inr (), ?s1)"
  proof (cases n)
    case (Dir es)
    with assms have "cp S (D @ [tn]) (fs s) = Inr ?t1"
      by (auto simp: cp_def is_dir_def)
    with Dir show ?thesis by (simp add: fs_op_def)
  next
    case (File c)
    with assms have "copyFile S (D @ [tn]) (fs s) = Inr ?t1"
      by (simp add: copyFile_succeeds)
    moreover have "utimes (D @ [tn]) ?t1 = Inr ?t1"
      using assms(3) by (simp add: utimes_def)
    ultimately show ?thesis
      using File by (simp add: and_then_def fs_op_def)
  qed
  have st: "stat S s = Inr \<lparr>isDirectory = kind_dir n, st_dev = dev s S\<rparr>"
    using assms(2) by (cases n) (simp_all add: stat_def)
  have T1: "lookup_path ?t1 (D @ [tn]) = Some n" and d1: "is_dir ?t1 D"
    and Q1: "lookup_path ?t1 (D @ [x]) = lookup_path (fs s) (D @ [x])"
    using assms(1,3) by simp_all
  have "\<exists>s'. replace_target rm_rf (D @ [tn]) (D @ [x]) ?s1 = (Inr (), s')"
  proof (cases "win32 s")
    case True
    have "rename (D @ [tn]) (D @ [x]) (del ?t1 (D @ [x])) =
            Inr (put (del (del ?t1 (D @ [x])) (D @ [tn])) (D @ [x]) n)"
      using assms(1) T1 d1 by (intro rename_succeeds) simp_all
    with True show ?thesis
      by (simp add: replace_target_def quietly_def fs_op_def rm_rf_def)
  next
    case False
    with assms(6) have "replaceable n (lookup_path ?t1 (D @ [x]))" by (simp add: Q1)
    then have "rename (D @ [tn]) (D @ [x]) ?t1 = Inr (put (del ?t1 (D @ [tn])) (D @ [x]) n)"
      using assms(1) T1 d1 by (intro rename_succeeds) simp_all
    with False show ?thesis
      by (simp add: replace_target_def fs_op_def)
  qed
  with copy st show ?thesis
    by (auto simp: copy_body_def and_then_def)
qed

section \<open>atomicCopy: three uses\<close>

lemma atomicCopy_plain:
  assumes run: "atomicCopy S (D @ [x]) opt s = (r, s')"
    and fresh: "lookup_path (fs s) (tempPath (D @ [x]) (rand s (drawn s))) = None"
  shows "quiet s s' \<and> locks (tab s') = locks (tab s) \<and> (tab s = no_locks \<longrightarrow> tab s' = no_locks) \<and>
         unchanged_outside {D @ [x]} {} (fs s) (fs s') \<and>
         lookup_path (fs s') (tempPath (D @ [x]) (rand s (drawn s))) = None \<and>
         lookup_path (fs s') (lockFile (D @ [x])) = lookup_path (fs s) (lockFile (D @ [x])) \<and>
         (case r of
            Inl e \<Rightarrow> lookup_path (fs s') (D @ [x]) = lookup_path (fs s) (D @ [x])
          | Inr u \<Rightarrow> lookup_path (fs s') (D @ [x]) \<noteq> None)"
  using atomicCopy_summary [OF run fresh, where J = "\<lambda>t. True" and J' = "\<lambda>t. True" and K = "\<lambda>v. True"]
  by (cases r) simp_all

text \<open>
  The source lies apart from the target, its temporary file and its marker; copying it
  to an absent target cannot fail and leaves the source's node there.
\<close>

lemma atomicCopy_fresh:
  assumes run: "atomicCopy S (D @ [x]) opt s = (r, s')"
    and fresh: "lookup_path (fs s) (tempPath (D @ [x]) (rand s (drawn s))) = None"
    and src: "lookup_path (fs s) S = Some n"
    and apart: "\<not> prefix S D"
      "\<not> prefix S (D @ [x])" "\<not> prefix (D @ [x]) S"
      "\<not> prefix S (tempPath (D @ [x]) (rand s (drawn s)))" "\<not> prefix (tempPath (D @ [x]) (rand s (drawn s))) S"
      "\<not> prefix S (lockFile (D @ [x]))" "\<not> prefix (lockFile (D @ [x])) S"
    and absent: "lookup_path (fs s) (D @ [x]) = None"
    and ready: "is_dir (fs s) D" "\<not> has_lock (tab s) (D @ [x])" "lookup_path (fs s) (lockFile (D @ [x])) = None"
  shows "r = Inr () \<and> lookup_path (fs s') (D @ [x]) = Some n \<and>
         quiet s s' \<and> locks (tab s') = locks (tab s) \<and> (tab s = no_locks \<longrightarrow> tab s' = no_locks) \<and>
         unchanged_outside {D @ [x]} {} (fs s) (fs s') \<and>
         lookup_path (fs s') (tempPath (D @ [x]) (rand s (drawn s))) = None \<and>
         lookup_path (fs s') (lockFile (D @ [x])) = None"
proof -
  define tn where "tn = ''.'' @ x @ ''.'' @ rand s (drawn s) @ ''.tmp''"
  have T: "tempPath (D @ [x]) (rand s (drawn s)) = D @ [tn]" and tn: "tn \<noteq> x" "tn \<noteq> x @ ''.lock''"
    by (simp_all add: tempPath_snoc tn_def)
  note fresh' = fresh [unfolded T] and apart' = apart [unfolded T lockFile_snoc]
  let ?J = "\<lambda>t. lookup_path t (D @ [x]) = None \<and> lookup_path t (D @ [tn]) = None \<and>
                lookup_path t S = Some n \<and> is_dir t D"
  have "quiet s s' \<and> locks (tab s') = locks (tab s) \<and> (tab s = no_locks \<longrightarrow> tab s' = no_locks) \<and>
         unchanged_outside {D @ [x]} {} (fs s) (fs s') \<and>
         lookup_path (fs s') (tempPath (D @ [x]) (rand s (drawn s))) = None \<and>
         lookup_path (fs s') (lockFile (D @ [x])) = lookup_path (fs s) (lockFile (D @ [x])) \<and>
         (case r of
            Inl e \<Rightarrow> lookup_path (fs s') (D @ [x]) = lookup_path (fs s) (D @ [x])
          | Inr u \<Rightarrow> lookup_path (fs s') (D @ [x]) \<noteq> None \<and> lookup_path (fs s') (D @ [x]) = Some n) \<and>
         (is_dir (fs s) D \<and> \<not> has_lock (tab s) (D @ [x]) \<and>
          lookup_path (fs s) (lockFile (D @ [x])) = None \<and> (\<forall>t::node. \<not> False) \<longrightarrow> r = Inr ())"
    using run fresh
  proof (rule atomicCopy_summary [where J = ?J and J' = "\<lambda>t. False" and K = "\<lambda>v. v = Some n"])
    fix t1 lockId assume "mkdir_p D (fs s) = Inr t1"
    with ready(1) have "t1 = fs s" by (simp add: mkdir_p_existing)
    then show "?J (put t1 (lockFile (D @ [x])) (File lockId))"
      using absent fresh' src ready(1) apart' tn
      by (simp add: lockFile_snoc lookup_put_other)
  next
    fix s1 e s2
    assume J: "?J (fs s1)" and "win32 s1 = win32 s"
      and c: "copy_body S (tempPath (D @ [x]) (rand s (drawn s))) (D @ [x]) opt s1 = (Inl e, s2)"
    from J have "\<exists>s'. copy_body S (D @ [tn]) (D @ [x]) opt s1 = (Inr (), s')"
      using tn(1) apart'(4) by (intro copy_body_succeeds [where n = n]) simp_all
    with c show False by (simp add: T)
  next
    fix s1 u s2
    assume J: "?J (fs s1)" and "win32 s1 = win32 s"
      and c: "copy_body S (tempPath (D @ [x]) (rand s (drawn s))) (D @ [x]) opt s1 = (Inr u, s2)"
    from copy_body_step [OF tn(1) c [unfolded T], of "{}"] J
    show "lookup_path (fs s2) (D @ [x]) = Some n" by auto
  qed simp
  with ready show ?thesis by (cases r) auto
qed

text \<open>
  Copying the source over a target that holds the same node leaves that node there,
  whether the copy succeeds or gives up.
\<close>

lemma atomicCopy_same:
  assumes run: "atomicCopy S (D @ [x]) opt s = (r, s')"
    and fresh: "lookup_path (fs s) (tempPath (D @ [x]) (rand s (drawn s))) = None"
    and src: "lookup_path (fs s) S = Some n"
    and apart: "\<not> prefix S D"
      "\<not> prefix S (D @ [x])" "\<not> prefix (D @ [x]) S"
      "\<not> prefix S (tempPath (D @ [x]) (rand s (drawn s)))" "\<not> prefix (tempPath (D @ [x]) (rand s (drawn s))) S"
      "\<not> prefix S (lockFile (D @ [x]))" "\<not> prefix (lockFile (D @ [x])) S"
    and same: "lookup_path (fs s) (D @ [x]) = Some n"
  shows "lookup_path (fs s') (D @ [x]) = Some n \<and>
         quiet s s' \<and> locks (tab s') = locks (tab s) \<and> (tab s = no_locks \<longrightarrow> tab s' = no_locks) \<and>
         unchanged_outside {D @ [x]} {} (fs s) (fs s') \<and>
         lookup_path (fs s') (tempPath (D @ [x]) (rand s (drawn s))) = None \<and>
         lookup_path (fs s') (lockFile (D @ [x])) = lookup_path (fs s) (lockFile (D @ [x]))"
proof -
  define tn where "tn = ''.'' @ x @ ''.'' @ rand s (drawn s) @ ''.tmp''"
  have T: "tempPath (D @ [x]) (rand s (drawn s)) = D @ [tn]" and tn: "tn \<noteq> x" "tn \<noteq> x @ ''.lock''"
    by (simp_all add: tempPath_snoc tn_def)
  note fresh' = fresh [unfolded T] and apart' = apart [unfolded T lockFile_snoc]
  let ?J = "\<lambda>t. lookup_path t (D @ [x]) = Some n \<and> lookup_path t S = Some n \<and>
                (lookup_path t (D @ [tn]) = None \<or>
                 (\<not> win32 s \<and> (\<exists>e es. n = Dir (e # es)) \<and> is_dir t (D @ [tn])))"
  have "quiet s s' \<and> locks (tab s') = locks (tab s) \<and> (tab s = no_locks \<longrightarrow> tab s' = no_locks) \<and>
         unchanged_outside {D @ [x]} {} (fs s) (fs s') \<and>
         lookup_path (fs s') (tempPath (D @ [x]) (rand s (drawn s))) = None \<and>
         lookup_path (fs s') (lockFile (D @ [x])) = lookup_path (fs s) (lockFile (D @ [x])) \<and>
         (case r of
            Inl e \<Rightarrow> lookup_path (fs s') (D @ [x]) = lookup_path (fs s) (D @ [x])
          | Inr u \<Rightarrow> lookup_path (fs s') (D @ [x]) \<noteq> None \<and> lookup_path (fs s') (D @ [x]) = Some n) \<and>
         (is_dir (fs s) D \<and> \<not> has_lock (tab s) (D @ [x]) \<and>
          lookup_path (fs s) (lockFile (D @ [x])) = None \<and> (\<forall>t. \<not> ?J t) \<longrightarrow> r = Inr ())"
    using run fresh
  proof (rule atomicCopy_summary [where J = ?J and J' = ?J and K = "\<lambda>v. v = Some n"])
    fix t1 lockId assume mk: "mkdir_p D (fs s) = Inr t1"
    then have "lookup_path t1 X = lookup_path (fs s) X" if "\<not> prefix X D" for X
      using that by (simp add: mkdir_p_lookup)
    then show "?J (put t1 (lockFile (D @ [x])) (File lockId))"
      using same fresh' src apart' tn
      by (simp add: lockFile_snoc lookup_put_other)
  next
    fix s1 e s2
    assume J: "?J (fs s1)" and w: "win32 s1 = win32 s"
      and c: "copy_body S (tempPath (D @ [x]) (rand s (drawn s))) (D @ [x]) opt s1 = (Inl e, s2)"
    note st = copy_body_step [OF tn(1) c [unfolded T], of "{}"]
    then have Q: "lookup_path (fs s2) (D @ [x]) = Some n" using J by simp
    from st consider "fs s2 = fs s1"
      | m where "\<not> win32 s1" "is_dir (fs s1) D" "fs s2 = put (fs s1) (D @ [tn]) m"
          "kind_dir m = kind_dir n" "\<not> replaceable m (Some n)"
      using J by auto
    then show "?J (fs s2)"
    proof cases
      case 1
      with J show ?thesis by simp
    next
      case 2
      from 2(4,5) have "(\<exists>e es. n = Dir (e # es)) \<and> kind_dir m"
        by (cases "(m, Some n)" rule: replaceable.cases) auto
      moreover then have "is_dir (fs s2) (D @ [tn])"
        using 2(2,3) by (cases m) (auto simp: is_dir_def)
      moreover have "lookup_path (fs s2) S = Some n"
        using J apart'(4,5) by (simp add: 2(3) lookup_put_other)
      ultimately show ?thesis using Q 2(1) w by simp
    qed
  next
    fix s1 u s2
    assume J: "?J (fs s1)" and w: "win32 s1 = win32 s"
      and c: "copy_body S (tempPath (D @ [x]) (rand s (drawn s))) (D @ [x]) opt s1 = (Inr u, s2)"
    from copy_body_step [OF tn(1) c [unfolded T], of "{}"] J obtain m where
      m: "lookup_path (fs s1) (D @ [tn]) = None \<longrightarrow> m = n" "kind_dir m = kind_dir n"
        "win32 s1 \<or> replaceable m (Some n)" "lookup_path (fs s2) (D @ [x]) = Some m"
      by auto
    show "lookup_path (fs s2) (D @ [x]) = Some n"
    proof (cases "lookup_path (fs s1) (D @ [tn]) = None")
      case True
      with m show ?thesis by simp
    next
      case False
      with J w obtain e es where "\<not> win32 s1" "n = Dir (e # es)" by auto
      with m(2,3) show ?thesis by (cases m) auto
    qed
  qed simp
  with same show ?thesis by (cases r) auto
qed

section \<open>Summary: atomicMove\<close>

lemma move_body_step:
  assumes apart: "\<not> prefix b (D @ [x])" "\<not> prefix (D @ [x]) b"
    and run: "replace_target rm_rf b (D @ [x]) s = (r, s')"
    and src: "lookup_path (fs s) b = Some n" and dir: "is_dir (fs s) D"
  shows "quiet s s' \<and> tab s' = tab s \<and> calls s' = calls s \<and> drawn s' = drawn s \<and> marks s' = marks s \<and>
         unchanged_outside {D @ [x], b} Ds (fs s) (fs s') \<and>
         (case r of
            Inl e \<Rightarrow> fs s' = fs s \<and> \<not> win32 s \<and> \<not> replaceable n (lookup_path (fs s) (D @ [x]))
          | Inr u \<Rightarrow> lookup_path (fs s') (D @ [x]) = Some n)"
proof -
  from src have b: "b \<noteq> []" using apart by auto
  define s2 where "s2 = (if win32 s then quietly (rm_rf (D @ [x])) s else s)"
  have run': "fs_op (rename b (D @ [x])) s2 = (r, s')"
    using run by (auto simp: replace_target_def s2_def split: if_splits)
  have s2: "quiet s s2 \<and> tab s2 = tab s \<and> calls s2 = calls s \<and> drawn s2 = drawn s \<and> marks s2 = marks s"
    by (auto simp: s2_def quietly_def fs_op_def rm_rf_def)
  have fs2: "fs s2 = (if win32 s then del (fs s) (D @ [x]) else fs s)"
    by (auto simp: s2_def quietly_def fs_op_def rm_rf_def)
  have b2: "lookup_path (fs s2) b = Some n" and d2: "is_dir (fs s2) D"
    and u2: "unchanged_outside {D @ [x], b} Ds (fs s) (fs s2)"
    using src dir apart by (auto simp: fs2 lookup_del_other unchanged_outside_del)
  from run' show ?thesis
  proof (cases rule: fs_op_cases)
    case (fails e)
    have nr: "\<not> replaceable n (lookup_path (fs s2) (D @ [x]))"
      using rename_fails_not_replaceable [OF fails(1) b2] d2 b apart by simp
    then have "\<not> win32 s" by (auto simp: fs2)
    with nr fails s2 show ?thesis by (simp add: fs2)
  next
    case (works t3)
    from rename_Inr [OF works(1) apart] b2
    have "t3 = put (del (fs s2) b) (D @ [x]) n" "lookup_path t3 (D @ [x]) = Some n"
      by auto
    with works s2 u2 show ?thesis
      by (auto intro!: unchanged_outside_put_step unchanged_outside_del_step)
  qed
qed

lemma move_failed_cases:
  "move_failed (r0, s') = (r, s') \<Longrightarrow> (r = Inr ()) = (r0 = Inr ())"
  by (auto simp: move_failed_def split: sum.splits)

lemma atomicMove_summary:
  assumes run: "atomicMove b (D @ [x]) s = (r, s')"
    and fresh: "lookup_path (fs s) (tempPath (D @ [x]) (rand s (drawn s))) = None"
    and src: "lookup_path (fs s) b = Some n"
    and apart: "\<not> prefix b D"
      "\<not> prefix b (D @ [x])" "\<not> prefix (D @ [x]) b"
      "\<not> prefix b (tempPath (D @ [x]) (rand s (drawn s)))" "\<not> prefix (tempPath (D @ [x]) (rand s (drawn s))) b"
      "\<not> prefix b (lockFile (D @ [x]))" "\<not> prefix (lockFile (D @ [x])) b"
    and pre: "lookup_path (fs s) (D @ [x]) = Some n \<or>
              (lookup_path (fs s) (D @ [x]) = None \<and> is_dir (fs s) D \<and> \<not> has_lock (tab s) (D @ [x]) \<and>
               lookup_path (fs s) (lockFile (D @ [x])) = None)"
  shows "lookup_path (fs s') (D @ [x]) = Some n \<and>
         quiet s s' \<and> locks (tab s') = locks (tab s) \<and> (tab s = no_locks \<longrightarrow> tab s' = no_locks) \<and>
         unchanged_outside {D @ [x], b} {} (fs s) (fs s') \<and>
         lookup_path (fs s') (tempPath (D @ [x]) (rand s (drawn s))) = None \<and>
         lookup_path (fs s') (lockFile (D @ [x])) = lookup_path (fs s) (lockFile (D @ [x]))"
proof -
  define ln where "ln = x @ ''.lock''"
  have L: "lockFile (D @ [x]) = D @ [ln]" and ln: "ln \<noteq> x"
    by (simp_all add: lockFile_snoc ln_def)
  define T where "T = tempPath (D @ [x]) (rand s (drawn s))"
  have Tx: "\<not> prefix T (D @ [x])" "\<not> prefix (D @ [x]) T" "\<not> prefix T (D @ [ln])" "\<not> prefix (D @ [ln]) T"
    by (simp_all add: T_def tempPath_snoc ln_def)
  note fresh' = fresh [folded T_def] and apart' = apart [folded T_def, unfolded L] and pre' = pre [unfolded L]
  from src apart(2) have b: "b \<noteq> []" by auto
  from pre' have d: "lookup_path (fs s) (D @ [x]) = None \<longrightarrow> is_dir (fs s) D" by auto
  from run show ?thesis
    unfolding atomicMove_def
  proof (cases rule: and_then_cases)
    case (first e)
    have "\<not> is_dir (fs s) D"
      using mkdir_retry_existing [of s D] first(1) by auto
    then have "lookup_path (fs s) (D @ [x]) = Some n"
      using pre' by auto
    with mkdir_retry [OF first(1)] first(2) fresh show ?thesis
      by auto
  next
    case (second v s1)
    from mkdir_retry [OF second(1)]
    have s1: "quiet s s1" "tab s1 = tab s" "drawn s1 = drawn s" and mk: "mkdir_p D (fs s) = Inr (fs s1)"
      by auto
    have r1: "rand s1 = rand s" and w1: "win32 s1 = win32 s" and dv1: "dev s1 = dev s"
      using s1(1) by (simp_all add: quiet_def)
    have u1: "unchanged_outside {D @ [x], b} {} (fs s) (fs s1)"
      unfolding unchanged_outside_def
      using mk by (auto simp: mkdir_p_lookup mkdir_p_keeps_dirs dest: prefix_snoc_cases
          intro: prefix_order.trans)
    have same1: "lookup_path (fs s1) X = lookup_path (fs s) X" if "\<not> prefix X D" for X
      using mk that by (simp add: mkdir_p_lookup)
    have d1: "is_dir (fs s1) D" using mk by (rule mkdir_p_is_dir)
    have b1: "lookup_path (fs s1) b = Some n" using src apart(1) by (simp add: same1)
    have P1: "lookup_path (fs s1) (D @ [x]) = lookup_path (fs s) (D @ [x])"
      and L1: "lookup_path (fs s1) (D @ [ln]) = lookup_path (fs s) (D @ [ln])"
      by (simp_all add: same1)
    have T1: "lookup_path (fs s1) T = None"
      using fresh' by (simp add: same1 T_def tempPath_snoc)
    have ready1: "lookup_path (fs s) (D @ [x]) = None \<longrightarrow>
        \<not> has_lock (tab s1) (D @ [x]) \<and> lookup_path (fs s1) (D @ [ln]) = None"
      using pre' s1(2) by (auto simp: L1)
    txt \<open>The two ways on: lock and rename, or copy and delete.\<close>
    let ?rename = "and_then (acquireLock (D @ [x]))
          (\<lambda>u. finally_do
                  (withRetry_default (replace_target rm_rf b (D @ [x]))
                     (''atomic move from '' @ path_string b @ '' to '' @ path_string (D @ [x])))
                  (unlock (D @ [x])))"
    let ?copy = "and_then (atomicCopy b (D @ [x]) (Some True)) (\<lambda>u. fs_op (rm_rf b))"
    let ?goal = "\<lambda>s'. lookup_path (fs s') (D @ [x]) = Some n \<and>
         quiet s1 s' \<and> locks (tab s') = locks (tab s1) \<and> (tab s1 = no_locks \<longrightarrow> tab s' = no_locks) \<and>
         unchanged_outside {D @ [x], b} {} (fs s1) (fs s') \<and>
         lookup_path (fs s') T = None \<and>
         lookup_path (fs s') (D @ [ln]) = lookup_path (fs s1) (D @ [ln])"
    have by_rename: "?goal s2" if mv: "?rename s1 = (r2, s2)" for r2 s2
      using mv
    proof (cases rule: and_then_cases)
      case (first e)
      have "lookup_path (fs s) (D @ [x]) = Some n"
      proof (rule ccontr)
        assume "lookup_path (fs s) (D @ [x]) \<noteq> Some n"
        with pre' ready1 have "\<not> has_lock (tab s1) (D @ [x])" "lookup_path (fs s1) (D @ [ln]) = None"
          by auto
        from acquireLock_succeeds [OF this(1) this(2) [unfolded ln_def] d1] first(1) show False by simp
      qed
      with acquireLock_summary [OF first(1)] T1 show ?thesis
        by (auto simp: P1)
    next
      case (second v3 s3)
      from acquireLock_summary [OF second(1)]
      have s3: "quiet s1 s3" "locks (tab s3) = insert (D @ [x]) (locks (tab s1))"
        "tab s1 = no_locks \<longrightarrow> tab s3 = set_lock no_locks (D @ [x])"
        "D @ [x] \<notin> locks (tab s1)"
        and L1n: "lookup_path (fs s1) (D @ [ln]) = None"
        by (auto simp: ln_def)
      from acquireLock_summary [OF second(1)] obtain lockId
        where fs3: "fs s3 = put (fs s1) (D @ [ln]) (File lockId)"
        by (auto simp: ln_def)
      have w3: "win32 s3 = win32 s1" using s3(1) by (simp add: quiet_def)
      have b3: "lookup_path (fs s3) b = Some n" and d3: "is_dir (fs s3) D"
        and P3: "lookup_path (fs s3) (D @ [x]) = lookup_path (fs s) (D @ [x])"
        and T3: "lookup_path (fs s3) T = None"
        using b1 d1 apart' ln Tx T1 by (simp_all add: fs3 lookup_put_other P1)
      from second(2) obtain s4 where
        w: "withRetry_default (replace_target rm_rf b (D @ [x]))
              (''atomic move from '' @ path_string b @ '' to '' @ path_string (D @ [x])) s3 = (r2, s4)"
        and s2: "s2 = unlock (D @ [x]) s4"
        by (rule finally_do_cases)
      let ?base = "\<lambda>s5. quiet s3 s5 \<and> tab s5 = tab s3"
      let ?A = "\<lambda>s5. ?base s5 \<and> fs s5 = fs s3"
      let ?B = "\<lambda>s5. ?base s5 \<and> fs s5 = fs s3 \<and> \<not> replaceable n (lookup_path (fs s3) (D @ [x]))"
      let ?Q = "\<lambda>(u::unit) s5. ?base s5 \<and> unchanged_outside {D @ [x], b} {} (fs s3) (fs s5) \<and>
          lookup_path (fs s5) (D @ [x]) = Some n"
      have wr: "case r2 of Inl e \<Rightarrow> ?B s4 | Inr v \<Rightarrow> ?Q v s4"
        using w
      proof (rule withRetry_default_rule2 [where A = ?A and B = ?B])
        show "?A s3" by simp
      next
        fix s5 d assume "?B s5"
        then show "?A (sleep d s5) \<and> ?B (sleep d s5)" by (auto simp: quiet_sleep)
      next
        fix s5 e s6 assume A: "?A s5" and c: "replace_target rm_rf b (D @ [x]) s5 = (Inl e, s6)"
        from move_body_step [OF apart(2,3) c, of n "{}"] A b3 d3 show "?B s6"
          by (auto intro: quiet_trans)
      next
        fix s5 v s6 assume A: "?A s5" and c: "replace_target rm_rf b (D @ [x]) s5 = (Inr v, s6)"
        from move_body_step [OF apart(2,3) c, of n "{}"] A b3 d3 show "?Q v s6"
          by (auto intro: quiet_trans)
      qed
      have s4: "quiet s3 s4" "tab s4 = tab s3"
        and u4: "unchanged_outside {D @ [x], b} {} (fs s3) (fs s4)"
        and P4: "lookup_path (fs s4) (D @ [x]) = Some n"
        using wr pre' P3 by (cases r2; auto)+
      have L4: "lookup_path (fs s4) (D @ [ln]) = Some (File lockId)"
        using unchanged_outside_lookup [OF u4, of "D @ [ln]"] ln d1 apart' by (simp add: fs3)
      have T4: "lookup_path (fs s4) T = None"
        using unchanged_outside_lookup [OF u4, of T] Tx T3 apart' by simp
      note un = unlock_summary [of s4 D x]
      from un L4 have fs2: "fs s2 = del (fs s4) (D @ [ln])"
        by (simp add: s2 ln_def)
      have "unchanged_outside {D @ [x], b, D @ [ln]} {} (fs s1) (fs s3)"
        by (simp add: fs3 unchanged_outside_put)
      moreover have "unchanged_outside {D @ [x], b, D @ [ln]} {} (fs s3) (fs s4)"
        using u4 by (rule unchanged_outside_mono) auto
      moreover have "unchanged_outside {D @ [x], b, D @ [ln]} {} (fs s4) (fs s2)"
        by (simp add: fs2 unchanged_outside_del)
      ultimately have "unchanged_outside {D @ [x], b, D @ [ln]} {} (fs s1) (fs s2)"
        by (blast intro: unchanged_outside_trans)
      moreover have L2: "lookup_path (fs s2) (D @ [ln]) = None"
        and P2: "lookup_path (fs s2) (D @ [x]) = Some n" and T2: "lookup_path (fs s2) T = None"
        using P4 T4 ln Tx by (simp_all add: fs2 lookup_del_other)
      ultimately have frame: "unchanged_outside {D @ [x], b} {} (fs s1) (fs s2)"
      proof -
        assume all: "unchanged_outside {D @ [x], b, D @ [ln]} {} (fs s1) (fs s2)"
        have "{D @ [x], b, D @ [ln]} = insert (D @ [ln]) {D @ [x], b}" by auto
        with all have "unchanged_outside (insert (D @ [ln]) {D @ [x], b}) {} (fs s1) (fs s2)"
          by simp
        then show ?thesis
          using L1n L2 by (rule unchanged_outside_drop) auto
      qed
      have "quiet s4 s2" using un by (simp add: s2)
      then have q: "quiet s1 s2"
        using s3(1) s4(1) by (blast intro: quiet_trans)
      have tab2: "tab s2 = snd (shift_queue (delete_lock (tab s3) (D @ [x])) (D @ [x]))"
        using un s4 by (simp add: s2)
      have lk: "locks (tab s2) = locks (tab s1)"
        using s3(2,4) by (auto simp: tab2 delete_lock_def)
      have nl: "tab s1 = no_locks \<longrightarrow> tab s2 = no_locks"
        using s3(3) by (auto simp: tab2)
      show ?thesis
        using q lk nl frame L2 L1n P2 T2 by simp
    qed
    have by_copy: "?goal s2" if cp: "?copy s1 = (r2, s2)" for r2 s2
    proof -
      have fresh1: "lookup_path (fs s1) (tempPath (D @ [x]) (rand s1 (drawn s1))) = None"
        using T1 by (simp add: r1 s1(3) T_def)
      have apart1: "\<not> prefix b D"
        "\<not> prefix b (D @ [x])" "\<not> prefix (D @ [x]) b"
        "\<not> prefix b (tempPath (D @ [x]) (rand s1 (drawn s1)))" "\<not> prefix (tempPath (D @ [x]) (rand s1 (drawn s1))) b"
        "\<not> prefix b (lockFile (D @ [x]))" "\<not> prefix (lockFile (D @ [x])) b"
        using apart by (simp_all add: r1 s1(3))
      have copied: "(r3 = Inr () \<or> lookup_path (fs s) (D @ [x]) = Some n) \<and>
         lookup_path (fs s3) (D @ [x]) = Some n \<and>
         quiet s1 s3 \<and> locks (tab s3) = locks (tab s1) \<and> (tab s1 = no_locks \<longrightarrow> tab s3 = no_locks) \<and>
         unchanged_outside {D @ [x]} {} (fs s1) (fs s3) \<and>
         lookup_path (fs s3) T = None \<and>
         lookup_path (fs s3) (D @ [ln]) = lookup_path (fs s1) (D @ [ln])"
        if c: "atomicCopy b (D @ [x]) (Some True) s1 = (r3, s3)" for r3 s3
      proof (cases "lookup_path (fs s) (D @ [x]) = Some n")
        case True
        then have "lookup_path (fs s1) (D @ [x]) = Some n" by (simp add: P1)
        from atomicCopy_same [OF c fresh1 b1 apart1 this] True show ?thesis
          by (simp add: L T_def r1 s1(3))
      next
        case False
        with pre' have f: "lookup_path (fs s1) (D @ [x]) = None" "\<not> has_lock (tab s1) (D @ [x])"
          "lookup_path (fs s1) (lockFile (D @ [x])) = None"
          by (auto simp: P1 L1 L s1(2))
        from atomicCopy_fresh [OF c fresh1 b1 apart1 f(1) d1 f(2,3)] f(3) show ?thesis
          by (simp add: L T_def r1 s1(3))
      qed
      from cp show ?thesis
      proof (cases rule: and_then_cases)
        case (first e)
        from copied [OF first(1)] show ?thesis
          by (auto intro: unchanged_outside_mono)
      next
        case (second v3 s3)
        note c = copied [OF second(1)]
        from second(2) b have s2: "s2 = s3\<lparr>fs := del (fs s3) b\<rparr>"
          by (auto simp: fs_op_def rm_rf_def)
        have "unchanged_outside {D @ [x], b} {} (fs s1) (fs s3)"
          using c by (auto intro: unchanged_outside_mono)
        then have "unchanged_outside {D @ [x], b} {} (fs s1) (fs s2)"
          by (simp add: s2 unchanged_outside_del_step)
        moreover have "lookup_path (fs s2) X = lookup_path (fs s3) X" if "\<not> prefix b X" "\<not> prefix X b" for X
          using that by (simp add: s2 lookup_del_other)
        ultimately show ?thesis
          using c apart' by (simp add: s2 T_def)
      qed
    qed
    txt \<open>Both \<open>stat\<close> calls succeed, and the device numbers choose the way.\<close>
    obtain bd y where bsplit: "b = bd @ [y]"
      using b by (metis append_butlast_last_id)
    have "is_dir (fs s1) (dirname b)"
      using lookup_child_parent [of "fs s1" bd y] b1 by (simp add: bsplit)
    then obtain ss where ss: "stat (dirname b) s1 = Inr ss"
      by (auto simp: is_dir_def stat_def)
    from d1 obtain ts where ts: "stat D s1 = Inr ts"
      by (auto simp: is_dir_def stat_def)
    obtain r0 where inner: "(if st_dev ss = st_dev ts then ?rename s1 else ?copy s1) = (r0, s')"
      and r: "r = (case r0 of Inl e \<Rightarrow> Inl (Error None (''Atomic move failed: '' @ message e)) | Inr u \<Rightarrow> Inr u)"
      using second(2) ss ts by (auto simp: move_failed_def split: prod.splits sum.splits)
    have "?goal s'"
      using inner by_rename by_copy by (auto split: if_splits)
    then show ?thesis
      using s1 u1 by (auto simp: L T_def L1 intro: quiet_trans unchanged_outside_trans)
  qed
qed

section \<open>Paths of a transaction\<close>

lemma tx_request_unfold:
  "tx_request q txs =
     (case tx_backup (target q) txs of
        (Inl e, tx1, s1) \<Rightarrow> (Inl e, tx1, s1)
      | (Inr u, tx1, s1) \<Rightarrow>
          (case mutate q s1 of
             (Inl e, s2) \<Rightarrow> (Inl e, tx1, s2)
           | (Inr u, s2) \<Rightarrow> (Inr (), tx1\<lparr>operations := operations tx1 @ [record_of q]\<rparr>, s2)))"
  by (cases q) (auto simp: tx_write_def tx_copy_def split: prod.splits sum.splits)

lemma record_of_simps [simp]:
  "op_path (record_of q) = target q" "op_backup (record_of q) = None" "op_type (record_of q) \<noteq> Backup"
  by (cases q; simp)+

lemma backup_record_simps [simp]:
  "op_path (backup_record p b) = p" "op_backup (backup_record p b) = Some b"
  "op_type (backup_record p b) = Backup"
  by (simp_all add: backup_record_def)

lemma prefix_snoc_left: "prefix (d @ [y]) p \<Longrightarrow> prefix d p"
  by (auto simp: prefix_def)

lemma apart_sym: "apart p q \<Longrightarrow> apart q p"
  by (auto simp: apart_def)

lemma apart_siblings: "y \<noteq> x \<Longrightarrow> apart (D @ [y]) (D @ [x])"
  by (auto simp: apart_def)

lemma apart_child: "apart p root \<Longrightarrow> apart p (root @ [y])"
  by (auto simp: apart_def dest: prefix_snoc_cases prefix_snoc_left)

lemma aux_paths_snoc:
  "aux_paths (D @ [x]) = insert (D @ [x @ ''.lock'']) (range (\<lambda>r. D @ [''.'' @ x @ ''.'' @ r @ ''.tmp'']))"
  by (auto simp: aux_paths_def lockFile_snoc tempPath_snoc)

lemma aux_paths_sibling:
  "a \<in> aux_paths (D @ [x]) \<Longrightarrow> \<exists>y. a = D @ [y] \<and> y \<noteq> x \<and> CHR ''.'' \<in> set y"
  by (auto simp: aux_paths_snoc)

lemma lockFile_aux [simp]: "lockFile p \<in> aux_paths p"
  and tempPath_aux [simp]: "tempPath p r \<in> aux_paths p"
  by (simp_all add: aux_paths_def)

lemma sep_snoc: "separate_targets Ps root \<Longrightarrow> p \<in> Ps \<Longrightarrow> \<exists>D x. p = D @ [x]"
  unfolding separate_targets_def by (metis append_butlast_last_id)

lemma sep_root: "separate_targets Ps root \<Longrightarrow> p \<in> Ps \<Longrightarrow> apart p root"
  unfolding separate_targets_def by blast

lemma sep_targets: "separate_targets Ps root \<Longrightarrow> p \<in> Ps \<Longrightarrow> q \<in> Ps \<Longrightarrow> p \<noteq> q \<Longrightarrow> apart p q"
  unfolding separate_targets_def by blast

lemma sep_backup: "separate_targets Ps root \<Longrightarrow> p \<in> Ps \<Longrightarrow> apart p (root @ [y])"
  by (simp add: sep_root apart_child)

lemma sep_aux_target:
  assumes sep: "separate_targets Ps root" and p: "p \<in> Ps" and q: "q \<in> Ps" and a: "a \<in> aux_paths p"
  shows "apart a q"
proof -
  from sep_snoc [OF sep p] obtain D x where px: "p = D @ [x]" by blast
  from aux_paths_sibling [OF a [unfolded px]] obtain y where y: "a = D @ [y]" "y \<noteq> x" by blast
  have n1: "\<not> prefix a q"
    using sep p q a unfolding separate_targets_def by blast
  have "\<not> prefix q a"
  proof
    assume "prefix q a"
    then have "q = D @ [y] \<or> prefix q D"
      unfolding y by (auto dest: prefix_snoc_cases)
    with n1 y have "prefix q D" by auto
    then have "prefix q p" "q \<noteq> p"
      unfolding px by (auto intro: prefix_order.trans)
    with sep_targets [OF sep q p] show False
      by (auto simp: apart_def)
  qed
  with n1 show ?thesis by (simp add: apart_def)
qed

lemma sep_aux_backup:
  assumes sep: "separate_targets Ps root" and p: "p \<in> Ps" and a: "a \<in> aux_paths p"
  shows "apart a (root @ [z])"
proof -
  from sep_snoc [OF sep p] obtain D x where px: "p = D @ [x]" by blast
  from aux_paths_sibling [OF a [unfolded px]] obtain y where y: "a = D @ [y]" "y \<noteq> x" by blast
  have n1: "\<not> prefix a root"
    using sep p a unfolding separate_targets_def by blast
  have pr: "\<not> prefix root p" "\<not> prefix p root"
    using sep_root [OF sep p] by (auto simp: apart_def)
  have "\<not> prefix a (root @ [z])"
  proof
    assume "prefix a (root @ [z])"
    with n1 have "a = root @ [z]" by (auto dest: prefix_snoc_cases)
    then have "D = root" unfolding y by simp
    with pr show False unfolding px by simp
  qed
  moreover have "\<not> prefix (root @ [z]) a"
  proof
    assume "prefix (root @ [z]) a"
    then have "prefix root a" by (rule prefix_snoc_left)
    then have "root = D @ [y] \<or> prefix root D"
      unfolding y by (auto dest: prefix_snoc_cases)
    with n1 y have "prefix root D" by auto
    with pr show False unfolding px by (auto intro: prefix_order.trans)
  qed
  ultimately show ?thesis by (simp add: apart_def)
qed

lemma sep_dir_target:
  assumes sep: "separate_targets Ps root" and p: "p \<in> Ps" and q: "q \<in> Ps"
  shows "\<not> prefix p (dirname q)"
proof
  assume pre: "prefix p (dirname q)"
  from sep_snoc [OF sep q] obtain D x where qx: "q = D @ [x]" by blast
  from pre have "prefix p D" by (simp add: qx dirname_snoc)
  then have "prefix p q" "p \<noteq> q"
    unfolding qx by (auto intro: prefix_order.trans)
  with sep_targets [OF sep p q] show False by (auto simp: apart_def)
qed

lemma sep_dir_backup:
  assumes sep: "separate_targets Ps root" and q: "q \<in> Ps"
  shows "\<not> prefix (root @ [z]) (dirname q)"
proof
  assume pre: "prefix (root @ [z]) (dirname q)"
  from sep_snoc [OF sep q] obtain D x where qx: "q = D @ [x]" by blast
  from pre have "prefix root D" by (auto simp: qx dirname_snoc dest: prefix_snoc_left)
  then have "prefix root q" unfolding qx by (auto intro: prefix_order.trans)
  with sep_root [OF sep q] show False by (auto simp: apart_def)
qed

lemma hex_distinct: "hex_names f \<Longrightarrow> i \<noteq> j \<Longrightarrow> apart (root @ [f i]) (root @ [f j])"
  by (auto simp: hex_names_def apart_def dest: injD)

lemma hex_dotted: "hex_names f \<Longrightarrow> CHR ''.'' \<in> set y \<Longrightarrow> apart (root @ [y]) (root @ [f i])"
  by (auto simp: hex_names_def apart_def)

lemma aux_backup_dotted:
  "a \<in> aux_paths (root @ [z]) \<Longrightarrow> \<exists>y. a = root @ [y] \<and> CHR ''.'' \<in> set y"
  using aux_paths_sibling by blast

lemma frame_lookup:
  "unchanged_outside A {} t t' \<Longrightarrow> \<forall>p\<in>A. apart p X \<Longrightarrow> lookup_path t' X = lookup_path t X"
  by (rule unchanged_outside_lookup) (auto simp: apart_def)

lemma empty_dir_child: "lookup_path t d = Some (Dir []) \<Longrightarrow> lookup_path t (d @ [y]) = None"
  by (simp add: lookup_append)

section \<open>Steps that keep a transaction undoable\<close>

lemma backups_simps [simp]:
  "backups [] = []"
  "backups (op # rs) = (case op_backup op of None \<Rightarrow> [] | Some b \<Rightarrow> [b]) @ backups rs"
  "backups (rs @ rs') = backups rs @ backups rs'"
  by (simp_all add: backups_def)

lemma restores_cong:
  "\<forall>b\<in>set (backups rs). vals' b = vals b \<Longrightarrow> restores p v0 vals' rs v = restores p v0 vals rs v"
  by (induction rs arbitrary: v) (auto split: option.splits)

lemma restores_skip:
  "list_all (\<lambda>op. op_path op \<noteq> p) new \<Longrightarrow> restores p v0 vals (new @ rs) v = restores p v0 vals rs v"
  by (induction new) auto

lemma sound_backups:
  "list_all (sound_record Ps root s) rs \<Longrightarrow> b \<in> set (backups rs) \<Longrightarrow> \<exists>i<drawn s. b = root @ [rand s i]"
  by (induction rs) (auto simp: sound_record_def split: option.splits)

lemma tidy_framed:
  assumes sep: "separate_targets Ps root" and hex: "hex_names (rand s)"
    and tidy: "tidy Ps root s" and q: "quiet s s'" and tab: "tab s' = no_locks"
    and fr: "unchanged_outside A {} (fs s) (fs s')"
    and A: "\<forall>a\<in>A. a \<in> Ps \<or> (\<exists>i<drawn s'. a = root @ [rand s i])"
  shows "tidy Ps root s'"
proof -
  from q have rand: "rand s' = rand s" and drawn: "drawn s \<le> drawn s'"
    by (simp_all add: quiet_def)
  have cases: "apart a X"
    if "a \<in> A" "a \<in> Ps \<Longrightarrow> apart a X" "\<And>i. i < drawn s' \<Longrightarrow> apart (root @ [rand s i]) X" for a X
    using A that by blast
  have "is_dir (fs s') root"
  proof (rule unchanged_outside_is_dir [OF fr])
    show "is_dir (fs s) root" using tidy by (simp add: tidy_def)
    show "\<forall>p\<in>A. \<not> prefix p root"
      using A sep_root [OF sep] by (auto simp: apart_def)
  qed
  moreover have "lookup_path (fs s') x = None" if "p \<in> Ps" "x \<in> aux_paths p" for p x
  proof -
    have "apart a x" if "a \<in> A" for a
      using that
    proof (rule cases)
      assume "a \<in> Ps"
      from sep_aux_target [OF sep \<open>p \<in> Ps\<close> this \<open>x \<in> aux_paths p\<close>] show "apart a x"
        by (rule apart_sym)
    next
      fix i
      from sep_aux_backup [OF sep \<open>p \<in> Ps\<close> \<open>x \<in> aux_paths p\<close>] show "apart (root @ [rand s i]) x"
        by (rule apart_sym)
    qed
    then have "\<forall>a\<in>A. apart a x" by blast
    from frame_lookup [OF fr this] tidy that show ?thesis by (simp add: tidy_def)
  qed
  moreover have "lookup_path (fs s') (root @ [y]) = None" if "CHR ''.'' \<in> set y" for y
  proof -
    have "apart a (root @ [y])" if "a \<in> A" for a
      using that
    proof (rule cases)
      assume "a \<in> Ps"
      then show "apart a (root @ [y])" by (rule sep_backup [OF sep])
    next
      fix i
      from hex_dotted [OF hex \<open>CHR ''.'' \<in> set y\<close>] show "apart (root @ [rand s i]) (root @ [y])"
        by (rule apart_sym)
    qed
    then have "\<forall>a\<in>A. apart a (root @ [y])" by blast
    from frame_lookup [OF fr this] tidy that show ?thesis by (simp add: tidy_def)
  qed
  moreover have "lookup_path (fs s') (root @ [rand s' i]) = None" if "drawn s' \<le> i" for i
  proof -
    have "apart a (root @ [rand s i])" if "a \<in> A" for a
      using that
    proof (rule cases)
      assume "a \<in> Ps"
      then show "apart a (root @ [rand s i])" by (rule sep_backup [OF sep])
    next
      fix j assume "j < drawn s'"
      with \<open>drawn s' \<le> i\<close> have "j \<noteq> i" by simp
      then show "apart (root @ [rand s j]) (root @ [rand s i])" by (rule hex_distinct [OF hex])
    qed
    then have "\<forall>a\<in>A. apart a (root @ [rand s i])" by blast
    from frame_lookup [OF fr this] tidy that drawn show ?thesis by (simp add: tidy_def rand)
  qed
  ultimately show ?thesis
    using tab by (simp add: tidy_def)
qed

lemma records_framed:
  assumes sep: "separate_targets Ps root"
    and rs: "list_all (sound_record Ps root s) rs" and q: "quiet s s'"
    and fr: "unchanged_outside A {} (fs s) (fs s')"
    and A: "\<forall>a\<in>A. a \<in> Ps \<or> (\<exists>y. a = root @ [y])"
  shows "list_all (sound_record Ps root s') rs"
proof -
  from q have rand: "rand s' = rand s" and drawn: "drawn s \<le> drawn s'"
    by (simp_all add: quiet_def)
  have "sound_record Ps root s' op" if op: "sound_record Ps root s op" for op
  proof -
    from op have p: "op_path op \<in> Ps" by (simp add: sound_record_def)
    have "is_dir (fs s') (dirname (op_path op))"
    proof (rule unchanged_outside_is_dir [OF fr])
      show "is_dir (fs s) (dirname (op_path op))" using op by (simp add: sound_record_def)
      show "\<forall>a\<in>A. \<not> prefix a (dirname (op_path op))"
        using A sep_dir_target [OF sep _ p] sep_dir_backup [OF sep p] by auto
    qed
    moreover have "\<exists>i<drawn s'. b = root @ [rand s' i]" if "\<exists>i<drawn s. b = root @ [rand s i]" for b
      using that drawn by (auto simp: rand intro: less_le_trans)
    ultimately show ?thesis
      using op by (simp add: sound_record_def split: option.splits)
  qed
  with rs show ?thesis by (auto simp: list_all_iff)
qed

lemma vals_framed:
  assumes sep: "separate_targets Ps root" and hex: "hex_names (rand s)"
    and rs: "list_all (sound_record Ps root s) rs"
    and fr: "unchanged_outside A {} (fs s) (fs s')"
    and A: "\<forall>a\<in>A. a \<in> Ps \<or> (a \<notin> set (backups rs) \<and> (\<exists>i. a = root @ [rand s i]))"
    and b: "b \<in> set (backups rs)"
  shows "lookup_path (fs s') b = lookup_path (fs s) b"
proof -
  from sound_backups [OF rs b] obtain j where j: "b = root @ [rand s j]" by blast
  have "\<forall>a\<in>A. apart a b"
  proof
    fix a assume a: "a \<in> A"
    show "apart a b"
    proof (cases "a \<in> Ps")
      case True
      then show ?thesis unfolding j by (rule sep_backup [OF sep])
    next
      case False
      with A a obtain i where i: "a \<noteq> b" "a = root @ [rand s i]"
        using b by blast
      then have "i \<noteq> j" using j by auto
      then show ?thesis unfolding i j by (rule hex_distinct [OF hex])
    qed
  qed
  then show ?thesis by (rule frame_lookup [OF fr])
qed

lemma undoable_stepI:
  assumes sep: "separate_targets Ps root" and hex: "hex_names (rand s)"
    and tidy: "tidy Ps root s" and rs: "list_all (sound_record Ps root s) rs"
    and others: "\<forall>p\<in>Ps. p \<noteq> p0 \<longrightarrow>
                   restores p (lookup_path t0 p) (lookup_path (fs s)) rs (lookup_path (fs s) p)"
    and p0: "p0 \<in> Ps"
    and q: "quiet s s'" and tab: "tab s' = no_locks"
    and fr: "unchanged_outside A {} (fs s) (fs s')"
    and A: "\<forall>a\<in>A. a = p0 \<or> (a \<notin> set (backups rs) \<and> (\<exists>j<drawn s'. a = root @ [rand s j]))"
    and new: "list_all (\<lambda>op. op_path op = p0 \<and> sound_record Ps root s' op) new"
    and dist: "distinct (backups (new @ rs))"
    and mine: "(\<And>v. restores p0 (lookup_path t0 p0) (lookup_path (fs s')) rs v =
                     restores p0 (lookup_path t0 p0) (lookup_path (fs s)) rs v) \<Longrightarrow>
               restores p0 (lookup_path t0 p0) (lookup_path (fs s')) (new @ rs) (lookup_path (fs s') p0)"
  shows "undoable Ps root t0 (new @ rs) s'"
proof -
  have A0: "a = p0 \<or> (a \<notin> set (backups rs) \<and> (\<exists>j<drawn s'. a = root @ [rand s j]))" if "a \<in> A" for a
    using A that by (rule bspec)
  have A1: "\<forall>a\<in>A. a \<in> Ps \<or> (\<exists>i<drawn s'. a = root @ [rand s i])"
  proof
    fix a assume "a \<in> A"
    from A0 [OF this] p0 show "a \<in> Ps \<or> (\<exists>i<drawn s'. a = root @ [rand s i])" by auto
  qed
  have A2: "\<forall>a\<in>A. a \<in> Ps \<or> (\<exists>y. a = root @ [y])"
  proof
    fix a assume "a \<in> A"
    from A0 [OF this] p0 show "a \<in> Ps \<or> (\<exists>y. a = root @ [y])" by auto
  qed
  have A3: "\<forall>a\<in>A. a \<in> Ps \<or> (a \<notin> set (backups rs) \<and> (\<exists>i. a = root @ [rand s i]))"
  proof
    fix a assume "a \<in> A"
    from A0 [OF this] p0 show "a \<in> Ps \<or> (a \<notin> set (backups rs) \<and> (\<exists>i. a = root @ [rand s i]))" by auto
  qed
  have vals: "\<forall>b\<in>set (backups rs). lookup_path (fs s') b = lookup_path (fs s) b"
    using vals_framed [OF sep hex rs fr A3] by blast
  have "tidy Ps root s'"
    by (rule tidy_framed [OF sep hex tidy q tab fr A1])
  moreover have "list_all (sound_record Ps root s') (new @ rs)"
    using records_framed [OF sep rs q fr A2] new by (auto simp: list_all_iff)
  moreover have "restores p (lookup_path t0 p) (lookup_path (fs s')) (new @ rs) (lookup_path (fs s') p)"
    if p: "p \<in> Ps" for p
  proof (cases "p = p0")
    case True
    show ?thesis unfolding True
      by (rule mine) (rule restores_cong [OF vals])
  next
    case False
    have "apart a p" if "a \<in> A" for a
    proof (cases "a = p0")
      case True
      with sep_targets [OF sep p0 p] False show ?thesis by simp
    next
      case False
      with A that obtain j where "a = root @ [rand s j]" by blast
      with sep_backup [OF sep p] show ?thesis by (simp add: apart_sym)
    qed
    then have "\<forall>a\<in>A. apart a p" by blast
    from frame_lookup [OF fr this] have same: "lookup_path (fs s') p = lookup_path (fs s) p" .
    have "list_all (\<lambda>op. op_path op \<noteq> p) new"
      using new False by (auto simp: list_all_iff)
    then show ?thesis
      using others p False by (simp add: restores_skip same restores_cong [OF vals])
  qed
  ultimately show ?thesis
    using dist by (simp add: undoable_def)
qed

section \<open>One call of write or copy\<close>

lemma mutate_summary:
  assumes run: "mutate q s = (r, s')" and t: "target q = D @ [x]"
    and fresh: "lookup_path (fs s) (tempPath (D @ [x]) (rand s (drawn s))) = None"
  shows "quiet s s' \<and> (tab s = no_locks \<longrightarrow> tab s' = no_locks) \<and>
         unchanged_outside {D @ [x]} {} (fs s) (fs s') \<and>
         (case r of
            Inl e \<Rightarrow> lookup_path (fs s') (D @ [x]) = lookup_path (fs s) (D @ [x])
          | Inr u \<Rightarrow> lookup_path (fs s') (D @ [x]) \<noteq> None)"
proof (cases q)
  case (WriteReq p c)
  with run t have "atomicWrite (D @ [x]) c s = (r, s')" by simp
  from atomicWrite_summary [OF this fresh] show ?thesis
    by (cases r) simp_all
next
  case (CopyReq src p)
  with run t have "atomicCopy src (D @ [x]) None s = (r, s')" by simp
  from atomicCopy_plain [OF this fresh] show ?thesis
    by (cases r) simp_all
qed

lemma tx_backup_existing:
  assumes sep: "separate_targets Ps (backupDir tx)" and tidy: "tidy Ps (backupDir tx) s"
    and p: "p \<in> Ps" and ex: "lookup_path (fs s) p = Some n"
  shows "\<exists>s1. tx_backup p (tx, s) =
                (Inr (), tx\<lparr>operations := operations tx @
                            [backup_record p (backupDir tx @ [rand s (drawn s)])]\<rparr>, s1) \<and>
              quiet s s1 \<and> tab s1 = no_locks \<and> drawn s < drawn s1 \<and>
              unchanged_outside {backupDir tx @ [rand s (drawn s)]} {} (fs s) (fs s1) \<and>
              lookup_path (fs s1) (backupDir tx @ [rand s (drawn s)]) = Some n"
proof -
  define root where "root = backupDir tx"
  define \<rho> where "\<rho> = rand s (drawn s)"
  define sa where "sa = s\<lparr>drawn := drawn s + 1\<rparr>"
  note sep = sep [folded root_def] and tidy = tidy [folded root_def]
  have rb: "randomBytes s = (\<rho>, sa)"
    by (simp add: randomBytes_def \<rho>_def sa_def)
  have sa: "fs sa = fs s" "tab sa = tab s" "rand sa = rand s" "drawn sa = Suc (drawn s)" "quiet s sa"
    by (simp_all add: sa_def quiet_def)
  obtain r1 s1 where c: "atomicCopy p (root @ [\<rho>]) None sa = (r1, s1)"
    by (cases "atomicCopy p (root @ [\<rho>]) None sa") auto
  have dotted: "lookup_path (fs s) (root @ [y]) = None" if "CHR ''.'' \<in> set y" for y
    using tidy that by (simp add: tidy_def)
  have fresh: "lookup_path (fs sa) (tempPath (root @ [\<rho>]) (rand sa (drawn sa))) = None"
    by (simp add: tempPath_snoc sa dotted)
  have src: "lookup_path (fs sa) p = Some n"
    using ex by (simp add: sa)
  have pb: "apart p (root @ [y])" for y
    by (rule sep_backup [OF sep p])
  have apart: "\<not> prefix p root"
    "\<not> prefix p (root @ [\<rho>])" "\<not> prefix (root @ [\<rho>]) p"
    "\<not> prefix p (tempPath (root @ [\<rho>]) (rand sa (drawn sa)))"
    "\<not> prefix (tempPath (root @ [\<rho>]) (rand sa (drawn sa))) p"
    "\<not> prefix p (lockFile (root @ [\<rho>]))" "\<not> prefix (lockFile (root @ [\<rho>])) p"
    using sep_root [OF sep p] pb by (simp_all add: apart_def tempPath_snoc lockFile_snoc)
  have absent: "lookup_path (fs sa) (root @ [\<rho>]) = None"
    using tidy by (simp add: tidy_def sa \<rho>_def)
  have ready: "is_dir (fs sa) root" "\<not> has_lock (tab sa) (root @ [\<rho>])"
    "lookup_path (fs sa) (lockFile (root @ [\<rho>])) = None"
    using tidy by (simp_all add: tidy_def sa lockFile_snoc)
  from atomicCopy_fresh [OF c fresh src apart absent ready]
  have r1: "r1 = Inr ()" and b: "lookup_path (fs s1) (root @ [\<rho>]) = Some n"
    and q: "quiet sa s1" and t1: "tab s1 = no_locks"
    and fr: "unchanged_outside {root @ [\<rho>]} {} (fs s) (fs s1)"
    using tidy by (simp_all add: sa tidy_def)
  from q have "drawn s < drawn s1" by (simp add: quiet_def sa)
  moreover have "quiet s s1" using sa(5) q by (rule quiet_trans)
  moreover have "tx_backup p (tx, s) =
      (Inr (), tx\<lparr>operations := operations tx @ [backup_record p (root @ [\<rho>])]\<rparr>, s1)"
    using ex rb c r1 by (simp add: tx_backup_def access_def join_def root_def backup_record_def)
  ultimately show ?thesis
    using b t1 fr unfolding root_def \<rho>_def by blast
qed

lemma tx_backup_missing:
  "lookup_path (fs s) p = None \<Longrightarrow> tx_backup p (tx, s) = (Inr (), tx, s)"
  by (simp add: tx_backup_def access_def)

lemma tx_request_missing:
  assumes sep: "separate_targets Ps root" and hex: "hex_names (rand s)"
    and inv: "undoable Ps root t0 (rev (operations tx)) s"
    and root: "backupDir tx = root" and p: "target q \<in> Ps"
    and run: "tx_request q (tx, s) = (r, tx', s')"
    and missing: "lookup_path (fs s) (target q) = None"
  shows "undoable Ps root t0 (rev (operations tx')) s' \<and> backupDir tx' = root \<and> quiet s s' \<and>
         (\<forall>p\<in>Ps. p \<noteq> target q \<longrightarrow> lookup_path (fs s') p = lookup_path (fs s) p) \<and>
         operations tx' = operations tx @ (if r = Inr () then [record_of q] else [])"
proof -
  from sep_snoc [OF sep p] obtain D x where t: "target q = D @ [x]" by blast
  note p = p [unfolded t] and missing = missing [unfolded t]
  from inv have tidy: "tidy Ps root s" and rs: "list_all (sound_record Ps root s) (rev (operations tx))"
    and dist: "distinct (backups (rev (operations tx)))"
    and rest: "\<forall>p\<in>Ps. restores p (lookup_path t0 p) (lookup_path (fs s)) (rev (operations tx)) (lookup_path (fs s) p)"
    by (simp_all add: undoable_def)
  obtain s2 where m: "mutate q s = (r, s2)"
    and out: "tx' = (if r = Inr () then tx\<lparr>operations := operations tx @ [record_of q]\<rparr> else tx)" "s' = s2"
    using run unfolding tx_request_unfold t tx_backup_missing [OF missing]
    by (auto split: prod.splits sum.splits)
  have fresh: "lookup_path (fs s) (tempPath (D @ [x]) (rand s (drawn s))) = None"
    using tidy p by (simp add: tidy_def)
  from mutate_summary [OF m t fresh] tidy
  have q: "quiet s s2" and tab: "tab s2 = no_locks"
    and fr: "unchanged_outside {D @ [x]} {} (fs s) (fs s2)"
    and res: "case r of Inl e \<Rightarrow> lookup_path (fs s2) (D @ [x]) = None
              | Inr u \<Rightarrow> lookup_path (fs s2) (D @ [x]) \<noteq> None"
    by (auto simp: tidy_def missing split: sum.splits)
  define new where "new = (if r = Inr () then [record_of q] else [])"
  have "undoable Ps root t0 (new @ rev (operations tx)) s2"
  proof (rule undoable_stepI [OF sep hex tidy rs _ p q tab fr])
    show "\<forall>p\<in>Ps. p \<noteq> D @ [x] \<longrightarrow>
            restores p (lookup_path t0 p) (lookup_path (fs s)) (rev (operations tx)) (lookup_path (fs s) p)"
      using rest by blast
    show "\<forall>a\<in>{D @ [x]}. a = D @ [x] \<or>
            a \<notin> set (backups (rev (operations tx))) \<and> (\<exists>j<drawn s2. a = root @ [rand s j])"
      by simp
    show "list_all (\<lambda>op. op_path op = D @ [x] \<and> sound_record Ps root s2 op) new"
    proof (cases "r = Inr ()")
      case True
      with res have "is_dir (fs s2) D"
        by (auto intro: lookup_child_parent)
      with True p show ?thesis
        by (simp add: new_def sound_record_def t)
    qed (simp add: new_def)
    show "distinct (backups (new @ rev (operations tx)))"
      using dist by (simp add: new_def)
    assume same: "\<And>v. restores (D @ [x]) (lookup_path t0 (D @ [x])) (lookup_path (fs s2)) (rev (operations tx)) v =
                      restores (D @ [x]) (lookup_path t0 (D @ [x])) (lookup_path (fs s)) (rev (operations tx)) v"
    from rest p missing
    have "restores (D @ [x]) (lookup_path t0 (D @ [x])) (lookup_path (fs s)) (rev (operations tx)) None"
      by auto
    with res show "restores (D @ [x]) (lookup_path t0 (D @ [x])) (lookup_path (fs s2))
            (new @ rev (operations tx)) (lookup_path (fs s2) (D @ [x]))"
      by (cases r) (simp_all add: new_def same t)
  qed
  moreover have "lookup_path (fs s2) p' = lookup_path (fs s) p'" if "p' \<in> Ps" "p' \<noteq> D @ [x]" for p'
  proof (rule frame_lookup [OF fr])
    from sep_targets [OF sep p that(1)] that(2) show "\<forall>a\<in>{D @ [x]}. apart a p'" by auto
  qed
  ultimately show ?thesis
    using q root by (cases "r = Inr ()") (simp_all add: out t new_def)
qed

lemma tx_request_existing:
  assumes sep: "separate_targets Ps root" and hex: "hex_names (rand s)"
    and inv: "undoable Ps root t0 (rev (operations tx)) s"
    and root: "backupDir tx = root" and p: "target q \<in> Ps"
    and run: "tx_request q (tx, s) = (r, tx', s')"
    and ex: "lookup_path (fs s) (target q) = Some n"
  shows "undoable Ps root t0 (rev (operations tx')) s' \<and> backupDir tx' = root \<and> quiet s s' \<and>
         (\<forall>p\<in>Ps. p \<noteq> target q \<longrightarrow> lookup_path (fs s') p = lookup_path (fs s) p) \<and>
         lookup_path (fs s') (target q) \<noteq> None \<and>
         operations tx' = operations tx @ backup_record (target q) (root @ [rand s (drawn s)]) #
                            (if r = Inr () then [record_of q] else []) \<and>
         (\<exists>s1. tx_backup (target q) (tx, s) =
                 (Inr (), tx\<lparr>operations := operations tx @
                            [backup_record (target q) (root @ [rand s (drawn s)])]\<rparr>, s1) \<and>
               lookup_path (fs s1) (root @ [rand s (drawn s)]) = Some n \<and>
               lookup_path (fs s1) (target q) = Some n \<and>
               mutate q s1 = (r, s'))"
proof -
  from sep_snoc [OF sep p] obtain D x where t: "target q = D @ [x]" by blast
  note p = p [unfolded t] and ex = ex [unfolded t]
  define b where "b = root @ [rand s (drawn s)]"
  from inv have tidy: "tidy Ps root s" and rs: "list_all (sound_record Ps root s) (rev (operations tx))"
    and dist: "distinct (backups (rev (operations tx)))"
    and rest: "\<forall>p\<in>Ps. restores p (lookup_path t0 p) (lookup_path (fs s)) (rev (operations tx)) (lookup_path (fs s) p)"
    by (simp_all add: undoable_def)
  from tx_backup_existing [OF sep [folded root] tidy [folded root] p ex]
  obtain s1 where bk: "tx_backup (D @ [x]) (tx, s) =
        (Inr (), tx\<lparr>operations := operations tx @ [backup_record (D @ [x]) b]\<rparr>, s1)"
    and q1: "quiet s s1" and tab1: "tab s1 = no_locks" and d1: "drawn s < drawn s1"
    and fr1: "unchanged_outside {b} {} (fs s) (fs s1)"
    and b1: "lookup_path (fs s1) b = Some n"
    unfolding root b_def by blast
  have pb: "apart (D @ [x]) b" "apart b (D @ [x])"
    unfolding b_def using sep_backup [OF sep p] by (simp_all add: apart_sym)
  obtain s2 where m: "mutate q s1 = (r, s2)"
    and out: "tx' = (if r = Inr ()
                     then tx\<lparr>operations := operations tx @ [backup_record (D @ [x]) b, record_of q]\<rparr>
                     else tx\<lparr>operations := operations tx @ [backup_record (D @ [x]) b]\<rparr>)" "s' = s2"
    using run unfolding tx_request_unfold t bk
    by (auto split: prod.splits sum.splits)
  have tidy1: "tidy Ps root s1"
  proof (rule tidy_framed [OF sep hex tidy q1 tab1 fr1])
    show "\<forall>a\<in>{b}. a \<in> Ps \<or> (\<exists>i<drawn s1. a = root @ [rand s i])"
      using d1 by (auto simp: b_def)
  qed
  have P1: "lookup_path (fs s1) (D @ [x]) = Some n"
    using frame_lookup [OF fr1, of "D @ [x]"] pb ex by simp
  have fresh: "lookup_path (fs s1) (tempPath (D @ [x]) (rand s1 (drawn s1))) = None"
    using tidy1 p by (simp add: tidy_def)
  from mutate_summary [OF m t fresh] tab1
  have q2: "quiet s1 s2" and tab: "tab s2 = no_locks"
    and fr2: "unchanged_outside {D @ [x]} {} (fs s1) (fs s2)"
    and res: "case r of Inl e \<Rightarrow> lookup_path (fs s2) (D @ [x]) = Some n
              | Inr u \<Rightarrow> lookup_path (fs s2) (D @ [x]) \<noteq> None"
    by (auto simp: P1 split: sum.splits)
  have P2: "lookup_path (fs s2) (D @ [x]) \<noteq> None"
    using res by (cases r) simp_all
  then have dir2: "is_dir (fs s2) D" by (rule lookup_child_parent)
  have b2: "lookup_path (fs s2) b = Some n"
    using frame_lookup [OF fr2, of b] pb b1 by simp
  have q: "quiet s s2" using q1 q2 by (rule quiet_trans)
  then have rand2: "rand s2 = rand s" and d2: "drawn s < drawn s2"
    using d1 q2 by (simp_all add: quiet_def)
  have "unchanged_outside {D @ [x], b} {} (fs s) (fs s1)"
    using fr1 by (rule unchanged_outside_mono) simp_all
  moreover have "unchanged_outside {D @ [x], b} {} (fs s1) (fs s2)"
    using fr2 by (rule unchanged_outside_mono) simp_all
  ultimately have fr: "unchanged_outside {D @ [x], b} {} (fs s) (fs s2)"
    by (rule unchanged_outside_trans)
  have fresh_b: "b \<notin> set (backups (rev (operations tx)))"
  proof
    assume "b \<in> set (backups (rev (operations tx)))"
    from sound_backups [OF rs this] obtain i where "i < drawn s" "b = root @ [rand s i]" by blast
    with hex show False by (auto simp: b_def hex_names_def dest: injD)
  qed
  define new where "new = (if r = Inr () then [record_of q] else []) @ [backup_record (D @ [x]) b]"
  have "undoable Ps root t0 (new @ rev (operations tx)) s2"
  proof (rule undoable_stepI [OF sep hex tidy rs _ p q tab fr])
    show "\<forall>p\<in>Ps. p \<noteq> D @ [x] \<longrightarrow>
            restores p (lookup_path t0 p) (lookup_path (fs s)) (rev (operations tx)) (lookup_path (fs s) p)"
      using rest by blast
    show "\<forall>a\<in>{D @ [x], b}. a = D @ [x] \<or>
            a \<notin> set (backups (rev (operations tx))) \<and> (\<exists>j<drawn s2. a = root @ [rand s j])"
      using fresh_b d2 by (auto simp: b_def)
    have "sound_record Ps root s2 (backup_record (D @ [x]) b)"
      using p dir2 d2 by (auto simp: sound_record_def rand2 b_def)
    moreover have "sound_record Ps root s2 (record_of q)"
      using p dir2 by (simp add: sound_record_def t)
    ultimately show "list_all (\<lambda>op. op_path op = D @ [x] \<and> sound_record Ps root s2 op) new"
      by (simp add: new_def t)
    show "distinct (backups (new @ rev (operations tx)))"
      using dist fresh_b by (simp add: new_def)
    assume same: "\<And>v. restores (D @ [x]) (lookup_path t0 (D @ [x])) (lookup_path (fs s2)) (rev (operations tx)) v =
                      restores (D @ [x]) (lookup_path t0 (D @ [x])) (lookup_path (fs s)) (rev (operations tx)) v"
    from rest p ex
    have "restores (D @ [x]) (lookup_path t0 (D @ [x])) (lookup_path (fs s)) (rev (operations tx)) (Some n)"
      by auto
    with res show "restores (D @ [x]) (lookup_path t0 (D @ [x])) (lookup_path (fs s2))
            (new @ rev (operations tx)) (lookup_path (fs s2) (D @ [x]))"
      by (cases r) (simp_all add: new_def same t b2)
  qed
  moreover have "lookup_path (fs s2) p' = lookup_path (fs s) p'" if "p' \<in> Ps" "p' \<noteq> D @ [x]" for p'
  proof (rule frame_lookup [OF fr])
    from sep_targets [OF sep p that(1)] that(2) sep_backup [OF sep that(1)]
    show "\<forall>a\<in>{D @ [x], b}. apart a p'" by (auto simp: b_def apart_sym)
  qed
  moreover note bk b1 P1 m P2
  ultimately show ?thesis
    using q root unfolding b_def [symmetric] t
    by (cases "r = Inr ()") (simp_all add: out new_def)
qed

section \<open>Runs and rollback\<close>

lemma tx_request_undoable:
  assumes sep: "separate_targets Ps root" and hex: "hex_names (rand s)"
    and inv: "undoable Ps root t0 (rev (operations tx)) s"
    and root: "backupDir tx = root" and p: "target q \<in> Ps"
    and run: "tx_request q (tx, s) = (r, tx', s')"
  shows "undoable Ps root t0 (rev (operations tx')) s' \<and> backupDir tx' = root \<and> rand s' = rand s"
proof (cases "lookup_path (fs s) (target q)")
  case None
  note X = tx_request_missing [OF sep hex inv root p run None]
  from X [THEN conjunct1] X [THEN conjunct2, THEN conjunct1] X [THEN conjunct2, THEN conjunct2, THEN conjunct1]
  show ?thesis by (simp only: quiet_def simp_thms)
next
  case (Some n)
  note X = tx_request_existing [OF sep hex inv root p run Some]
  from X [THEN conjunct1] X [THEN conjunct2, THEN conjunct1] X [THEN conjunct2, THEN conjunct2, THEN conjunct1]
  show ?thesis by (simp only: quiet_def simp_thms)
qed

lemma tx_run_undoable:
  assumes sep: "separate_targets Ps root"
  shows "hex_names (rand s) \<Longrightarrow> undoable Ps root t0 (rev (operations tx)) s \<Longrightarrow> backupDir tx = root \<Longrightarrow>
         target ` set qs \<subseteq> Ps \<Longrightarrow> tx_run qs (tx, s) = (tx', s') \<Longrightarrow>
         undoable Ps root t0 (rev (operations tx')) s' \<and> backupDir tx' = root \<and> rand s' = rand s"
proof (induction qs arbitrary: tx s)
  case Nil
  then show ?case by simp
next
  case (Cons q qs)
  obtain r tx1 s1 where step: "tx_request q (tx, s) = (r, tx1, s1)"
    by (cases "tx_request q (tx, s)") auto
  from Cons.prems(4) have q: "target q \<in> Ps" and qs: "target ` set qs \<subseteq> Ps" by auto
  from tx_request_undoable [OF sep Cons.prems(1,2,3) q step]
  have 1: "undoable Ps root t0 (rev (operations tx1)) s1" "backupDir tx1 = root" "rand s1 = rand s"
    by simp_all
  from Cons.prems(5) step have "tx_run qs (tx1, s1) = (tx', s')" by simp
  from Cons.IH [OF _ 1(1,2) qs this] Cons.prems(1) 1(3) show ?case by simp
qed

lemma rollback_step_undoable:
  assumes sep: "separate_targets Ps root" and hex: "hex_names (rand s)"
    and inv: "undoable Ps root t0 (op # rs) s"
  shows "undoable Ps root t0 rs (rollback_step op s) \<and> rand (rollback_step op s) = rand s"
proof -
  from inv have tidy: "tidy Ps root s" and op: "sound_record Ps root s op"
    and rs: "list_all (sound_record Ps root s) rs"
    and dist: "distinct (backups (op # rs))"
    and rest: "\<forall>p\<in>Ps. restores p (lookup_path t0 p) (lookup_path (fs s)) (op # rs) (lookup_path (fs s) p)"
    by (simp_all add: undoable_def)
  from op have p: "op_path op \<in> Ps" by (simp add: sound_record_def)
  from sep_snoc [OF sep p] obtain D x where t: "op_path op = D @ [x]" by blast
  note p = p [unfolded t]
  from op have dir: "is_dir (fs s) D" by (simp add: sound_record_def t)
  have others: "\<forall>p\<in>Ps. p \<noteq> D @ [x] \<longrightarrow>
      restores p (lookup_path t0 p) (lookup_path (fs s)) rs (lookup_path (fs s) p)"
    using rest by (auto simp: t)
  from rest p have mine: "restores (D @ [x]) (lookup_path t0 (D @ [x])) (lookup_path (fs s)) (op # rs)
      (lookup_path (fs s) (D @ [x]))"
    by blast
  show ?thesis
  proof (cases "op_backup op")
    case None
    with op have "op_type op = Write \<or> op_type op = Copy"
      by (cases "op_type op") (simp_all add: sound_record_def)
    with None have s': "rollback_step op s = s\<lparr>fs := del (fs s) (D @ [x])\<rparr>"
      by (auto simp: rollback_step_def quietly_def fs_op_def rm_rf_def t)
    have "undoable Ps root t0 ([] @ rs) (s\<lparr>fs := del (fs s) (D @ [x])\<rparr>)"
    proof (rule undoable_stepI [OF sep hex tidy rs others p, where A = "{D @ [x]}"])
      show "quiet s (s\<lparr>fs := del (fs s) (D @ [x])\<rparr>)" by simp
      show "tab (s\<lparr>fs := del (fs s) (D @ [x])\<rparr>) = no_locks" using tidy by (simp add: tidy_def)
      show "unchanged_outside {D @ [x]} {} (fs s) (fs (s\<lparr>fs := del (fs s) (D @ [x])\<rparr>))"
        by (simp add: unchanged_outside_del)
      show "distinct (backups ([] @ rs))" using dist by simp
      assume "\<And>v. restores (D @ [x]) (lookup_path t0 (D @ [x])) (lookup_path (fs (s\<lparr>fs := del (fs s) (D @ [x])\<rparr>))) rs v =
                   restores (D @ [x]) (lookup_path t0 (D @ [x])) (lookup_path (fs s)) rs v"
      with mine None
      show "restores (D @ [x]) (lookup_path t0 (D @ [x])) (lookup_path (fs (s\<lparr>fs := del (fs s) (D @ [x])\<rparr>)))
              ([] @ rs) (lookup_path (fs (s\<lparr>fs := del (fs s) (D @ [x])\<rparr>)) (D @ [x]))"
        by (simp add: t lookup_del_same)
    qed simp_all
    then show ?thesis by (simp add: s')
  next
    case (Some b)
    with op obtain i where ty: "op_type op = Backup" and i: "i < drawn s" and b: "b = root @ [rand s i]"
      by (auto simp: sound_record_def)
    obtain r s' where run: "atomicMove b (D @ [x]) s = (r, s')"
      by (cases "atomicMove b (D @ [x]) s") auto
    then have s': "rollback_step op s = s'"
      using Some ty by (simp add: rollback_step_def t)
    from mine Some obtain n where src: "lookup_path (fs s) b = Some n"
      and v: "lookup_path (fs s) (D @ [x]) = None \<or> lookup_path (fs s) (D @ [x]) = Some n"
      and rest': "restores (D @ [x]) (lookup_path t0 (D @ [x])) (lookup_path (fs s)) rs (Some n)"
      by (auto simp: t)
    have fresh: "lookup_path (fs s) (tempPath (D @ [x]) (rand s (drawn s))) = None"
      using tidy p by (simp add: tidy_def)
    have apart: "\<not> prefix b D"
      "\<not> prefix b (D @ [x])" "\<not> prefix (D @ [x]) b"
      "\<not> prefix b (tempPath (D @ [x]) (rand s (drawn s)))" "\<not> prefix (tempPath (D @ [x]) (rand s (drawn s))) b"
      "\<not> prefix b (lockFile (D @ [x]))" "\<not> prefix (lockFile (D @ [x])) b"
      using sep_dir_backup [OF sep p, of "rand s i"] sep_backup [OF sep p, of "rand s i"]
        sep_aux_backup [OF sep p tempPath_aux, of "rand s (drawn s)" "rand s i"]
        sep_aux_backup [OF sep p lockFile_aux, of "rand s i"]
      by (simp_all add: b apart_def)
    have pre: "lookup_path (fs s) (D @ [x]) = Some n \<or>
         (lookup_path (fs s) (D @ [x]) = None \<and> is_dir (fs s) D \<and> \<not> has_lock (tab s) (D @ [x]) \<and>
          lookup_path (fs s) (lockFile (D @ [x])) = None)"
      using v dir tidy p by (auto simp: tidy_def)
    from atomicMove_summary [OF run fresh src apart pre] tidy
    have P': "lookup_path (fs s') (D @ [x]) = Some n" and q: "quiet s s'" and tab: "tab s' = no_locks"
      and fr: "unchanged_outside {D @ [x], b} {} (fs s) (fs s')"
      by (simp_all add: tidy_def)
    from q i have i': "i < drawn s'" by (simp add: quiet_def)
    have "undoable Ps root t0 ([] @ rs) s'"
    proof (rule undoable_stepI [OF sep hex tidy rs others p q tab fr])
      show "\<forall>a\<in>{D @ [x], b}. a = D @ [x] \<or> a \<notin> set (backups rs) \<and> (\<exists>j<drawn s'. a = root @ [rand s j])"
        using dist Some i' b by auto
      show "distinct (backups ([] @ rs))" using dist by simp
      assume "\<And>v. restores (D @ [x]) (lookup_path t0 (D @ [x])) (lookup_path (fs s')) rs v =
                   restores (D @ [x]) (lookup_path t0 (D @ [x])) (lookup_path (fs s)) rs v"
      with rest' P'
      show "restores (D @ [x]) (lookup_path t0 (D @ [x])) (lookup_path (fs s')) ([] @ rs)
              (lookup_path (fs s') (D @ [x]))"
        by simp
    qed simp_all
    with q show ?thesis by (simp add: s' quiet_def)
  qed
qed

lemma rollback_loop_undoable:
  assumes sep: "separate_targets Ps root"
  shows "hex_names (rand s) \<Longrightarrow> undoable Ps root t0 rs s \<Longrightarrow> undoable Ps root t0 [] (rollback_loop rs s)"
proof (induction rs arbitrary: s)
  case Nil
  then show ?case by simp
next
  case (Cons op rs)
  from rollback_step_undoable [OF sep Cons.prems] Cons.prems(1) Cons.IH [of "rollback_step op s"]
  show ?case by simp
qed

lemma undoable_Nil: "undoable Ps root t0 [] s \<Longrightarrow> p \<in> Ps \<Longrightarrow> lookup_path (fs s) p = lookup_path t0 p"
  by (simp add: undoable_def)

lemma undoable_start:
  assumes "clean_start Ps tx s"
  shows "undoable Ps (backupDir tx) (fs s) (rev (operations tx)) s"
  using assms by (auto simp: clean_start_def undoable_def tidy_def is_dir_def empty_dir_child)

section \<open>The records of a run\<close>

lemma guarded_append:
  assumes a: "guarded p a" and b: "guarded p b"
  shows "guarded p (a @ b)"
  unfolding guarded_def
proof (intro allI impI)
  fix i
  assume i: "i < length (a @ b)"
    and rec: "op_path ((a @ b) ! i) = p \<and> op_type ((a @ b) ! i) \<noteq> Backup"
  show "0 < i \<and> op_path ((a @ b) ! (i - 1)) = p \<and> op_type ((a @ b) ! (i - 1)) = Backup"
  proof (cases "i < length a")
    case True
    with rec have "op_path (a ! i) = p \<and> op_type (a ! i) \<noteq> Backup"
      by (simp add: nth_append)
    with a True have "0 < i \<and> op_path (a ! (i - 1)) = p \<and> op_type (a ! (i - 1)) = Backup"
      unfolding guarded_def by blast
    moreover from True have "(a @ b) ! (i - 1) = a ! (i - 1)"
      by (simp add: nth_append)
    ultimately show ?thesis by simp
  next
    case False
    define j where "j = i - length a"
    from False i have j: "j < length b" "i = length a + j"
      by (simp_all add: j_def)
    with rec have "op_path (b ! j) = p \<and> op_type (b ! j) \<noteq> Backup"
      by (simp add: nth_append)
    with b j(1) have *: "0 < j \<and> op_path (b ! (j - 1)) = p \<and> op_type (b ! (j - 1)) = Backup"
      unfolding guarded_def by blast
    then have "0 < j" by simp
    then have "\<not> i - 1 < length a" "i - 1 - length a = j - 1"
      using j(2) by arith+
    then have "(a @ b) ! (i - 1) = b ! (j - 1)"
      by (simp only: nth_append if_False)
    with * j(2) show ?thesis by simp
  qed
qed

lemma guarded_other: "\<forall>op\<in>set new. op_path op \<noteq> p \<Longrightarrow> guarded p new"
  by (auto simp: guarded_def)

lemma backup_records_other: "\<forall>op\<in>set new. op_path op \<noteq> p \<Longrightarrow> backup_records p new = []"
  by (auto simp: backup_records_def)

lemma backup_records_append [simp]:
  "backup_records p (a @ b) = backup_records p a @ backup_records p b"
  by (simp add: backup_records_def)

lemma guarded_Nil [simp]: "guarded p []"
  by (simp add: guarded_def)

lemma backup_records_Nil [simp]: "backup_records p [] = []"
  by (simp add: backup_records_def)

lemma guarded_call:
  "target q = p \<Longrightarrow> guarded p (backup_record p b # (if c then [record_of q] else []))"
  by (auto simp: guarded_def nth_Cons split: nat.splits)

lemma backup_records_call:
  "target q = p \<Longrightarrow>
   backup_records p (backup_record p b # (if c then [record_of q] else [])) = [backup_record p b]"
  by (simp add: backup_records_def)

lemma tx_request_records:
  assumes sep: "separate_targets Ps root" and hex: "hex_names (rand s)"
    and inv: "undoable Ps root t0 (rev (operations tx)) s"
    and root: "backupDir tx = root" and q: "target q \<in> Ps"
    and p: "p \<in> Ps" and ex: "lookup_path (fs s) p \<noteq> None"
    and run: "tx_request q (tx, s) = (r, tx', s')"
  shows "lookup_path (fs s') p \<noteq> None \<and>
         (\<exists>new. operations tx' = operations tx @ new \<and> guarded p new \<and>
                length (backup_records p new) = (if target q = p then 1 else 0))"
proof (cases "target q = p")
  case True
  from ex True obtain n where n: "lookup_path (fs s) (target q) = Some n" by auto
  note X = tx_request_existing [OF sep hex inv root q run n]
  let ?new = "backup_record p (root @ [rand s (drawn s)]) # (if r = Inr () then [record_of q] else [])"
  from X have "lookup_path (fs s') p \<noteq> None" and "operations tx' = operations tx @ ?new"
    unfolding True by blast+
  moreover have "guarded p ?new" using True by (rule guarded_call)
  moreover have "length (backup_records p ?new) = 1"
    using True by (simp only: backup_records_call) simp
  ultimately show ?thesis using True by auto
next
  case False
  have "lookup_path (fs s') p = lookup_path (fs s) p \<and>
        (\<exists>new. operations tx' = operations tx @ new \<and> (\<forall>op\<in>set new. op_path op \<noteq> p))"
  proof (cases "lookup_path (fs s) (target q)")
    case None
    note X = tx_request_missing [OF sep hex inv root q run None]
    from X have "\<forall>p\<in>Ps. p \<noteq> target q \<longrightarrow> lookup_path (fs s') p = lookup_path (fs s) p"
      and "operations tx' = operations tx @ (if r = Inr () then [record_of q] else [])"
      by blast+
    with p False show ?thesis by auto
  next
    case (Some n)
    note X = tx_request_existing [OF sep hex inv root q run Some]
    from X have "\<forall>p\<in>Ps. p \<noteq> target q \<longrightarrow> lookup_path (fs s') p = lookup_path (fs s) p"
      and "operations tx' = operations tx @ backup_record (target q) (root @ [rand s (drawn s)]) #
                            (if r = Inr () then [record_of q] else [])"
      by blast+
    with p False show ?thesis by auto
  qed
  then obtain new where "lookup_path (fs s') p = lookup_path (fs s) p"
    "operations tx' = operations tx @ new" "\<forall>op\<in>set new. op_path op \<noteq> p"
    by blast
  with ex False guarded_other [of new p] backup_records_other [of new p] show ?thesis
    by auto
qed

lemma tx_run_records:
  assumes sep: "separate_targets Ps root" and p: "p \<in> Ps"
  shows "hex_names (rand s) \<Longrightarrow> undoable Ps root t0 (rev (operations tx)) s \<Longrightarrow> backupDir tx = root \<Longrightarrow>
         target ` set qs \<subseteq> Ps \<Longrightarrow> lookup_path (fs s) p \<noteq> None \<Longrightarrow> tx_run qs (tx, s) = (tx', s') \<Longrightarrow>
         \<exists>new. operations tx' = operations tx @ new \<and> guarded p new \<and>
               length (backup_records p new) = length (filter (\<lambda>q. target q = p) qs)"
proof (induction qs arbitrary: tx s)
  case Nil
  then show ?case by simp
next
  case (Cons q qs)
  obtain r tx1 s1 where step: "tx_request q (tx, s) = (r, tx1, s1)"
    by (cases "tx_request q (tx, s)") auto
  from Cons.prems(4) have q: "target q \<in> Ps" and qs: "target ` set qs \<subseteq> Ps" by auto
  from tx_request_undoable [OF sep Cons.prems(1,2,3) q step]
  have 1: "undoable Ps root t0 (rev (operations tx1)) s1" "backupDir tx1 = root" "rand s1 = rand s"
    by simp_all
  from tx_request_records [OF sep Cons.prems(1,2,3) q p Cons.prems(5) step]
  obtain new1 where ex1: "lookup_path (fs s1) p \<noteq> None"
    and new1: "operations tx1 = operations tx @ new1" "guarded p new1"
      "length (backup_records p new1) = (if target q = p then 1 else 0)"
    by blast
  from Cons.prems(6) step have "tx_run qs (tx1, s1) = (tx', s')" by simp
  from Cons.IH [OF _ 1(1,2) qs ex1 this] Cons.prems(1) 1(3)
  obtain new2 where new2: "operations tx' = operations tx1 @ new2" "guarded p new2"
      "length (backup_records p new2) = length (filter (\<lambda>q. target q = p) qs)"
    by auto
  show ?case
  proof (intro exI conjI)
    show "operations tx' = operations tx @ (new1 @ new2)"
      using new1(1) new2(1) by simp
    show "guarded p (new1 @ new2)"
      using new1(2) new2(2) by (rule guarded_append)
    show "length (backup_records p (new1 @ new2)) = length (filter (\<lambda>q. target q = p) (q # qs))"
      using new1(3) new2(3) by simp
  qed
qed

section \<open>Claims about the path lock\<close>

lemma settle_Holding [simp]: "settle w ph c = Holding \<longleftrightarrow> ph c = Holding"
  by (simp add: settle_def)

lemma invoke_Holding [simp]: "invoke next ph c = Holding \<longleftrightarrow> ph c = Holding"
  by (cases "(next, ph)" rule: invoke.cases) simp_all

lemma hand_over_frame:
  "disk (hand_over c ph s) = disk s" "asked (hand_over c ph s) = asked s"
  "phase (hand_over c ph s) d = Holding \<longleftrightarrow> ((phase s)(c := ph)) d = Holding"
  by (simp_all add: hand_over_def split: prod.splits)

lemma holders_exclusive_hand_over:
  "holders_exclusive s \<Longrightarrow> ph \<noteq> Holding \<Longrightarrow> holders_exclusive (hand_over c ph s)"
  unfolding holders_exclusive_def marker_of_def
  by (auto simp: hand_over_frame split: if_splits)

lemma holders_exclusive_step: "holders_exclusive s \<Longrightarrow> holders_exclusive (lstep ev s)"
proof (cases ev)
  case (WriteDone c)
  assume inv: "holders_exclusive s"
  show ?thesis
  proof (cases "phase s c")
    case (Attempting i)
    with inv WriteDone show ?thesis
      by (auto simp: lstep_def holders_exclusive_hand_over)
         (auto simp: holders_exclusive_def marker_of_def split: if_splits)
  qed (use inv WriteDone in \<open>simp_all add: lstep_def\<close>)
next
  case (BackoffOver c)
  assume inv: "holders_exclusive s"
  show ?thesis
  proof (cases "phase s c")
    case (Backoff i)
    with inv BackoffOver show ?thesis
      by (auto simp: lstep_def holders_exclusive_hand_over)
         (auto simp: holders_exclusive_def marker_of_def split: if_splits)
  qed (use inv BackoffOver in \<open>simp_all add: lstep_def\<close>)
next
  case (Unlinked c)
  assume "holders_exclusive s"
  with Unlinked show ?thesis
    by (simp add: lstep_def holders_exclusive_hand_over)
next
  case (Release c)
  assume "holders_exclusive s"
  with Release show ?thesis
    unfolding holders_exclusive_def marker_of_def lstep_def
    by (auto split: if_splits)
qed (auto simp: lstep_def holders_exclusive_def marker_of_def split: if_splits)

lemma holders_exclusive_run: "holders_exclusive s \<Longrightarrow> holders_exclusive (lrun evs s)"
  unfolding lrun_def by (induction evs arbitrary: s) (simp_all add: holders_exclusive_step)

lemma holders_exclusive_init: "holders_exclusive linit"
  by (simp add: holders_exclusive_def linit_def)

text \<open>
  C3 (as amended): in every schedule of calls, timers, marker writes and releases, at most
  one caller at a time holds the lock whose marker file \<open>path + ".lock"\<close> resolves to a
  given file; in particular at most one caller holds a given key, the key being the path
  string exactly as it was passed.
\<close>

theorem lock_holder_unique:
  "phase (lrun evs linit) c = Holding \<Longrightarrow> phase (lrun evs linit) c' = Holding \<Longrightarrow>
   resolve (lockFile_name (asked (lrun evs linit) c)) =
     resolve (lockFile_name (asked (lrun evs linit) c')) \<Longrightarrow> c = c'"
  using holders_exclusive_run [OF holders_exclusive_init, of evs]
  unfolding holders_exclusive_def marker_of_def by blast


theorem lock_holder_unique_witness:
  "phase (lrun [Call 0 ''d'', WriteDone 0, Call 1 ''d''] linit) 0 = Holding \<and>
   phase (lrun [Call 0 ''d'', WriteDone 0, Call 1 ''d''] linit) 1 = Queued \<and>
   asked (lrun [Call 0 ''d'', WriteDone 0, Call 1 ''d''] linit) 0 =
     asked (lrun [Call 0 ''d'', WriteDone 0, Call 1 ''d''] linit) 1 \<and> (0::nat) = 0"
proof -
  let ?s = "lrun [Call 0 ''d'', WriteDone 0, Call 1 ''d''] linit"
  have h: "phase ?s 0 = Holding"
    by (simp add: lrun_def lstep_def linit_def no_locks_def has_lock_def set_lock_def enqueue_def)
  have q: "phase ?s 1 = Queued"
    by (simp add: lrun_def lstep_def linit_def no_locks_def has_lock_def set_lock_def enqueue_def)
  have a: "asked ?s 0 = asked ?s 1"
    by (simp add: lrun_def lstep_def linit_def no_locks_def has_lock_def set_lock_def enqueue_def)
  from lock_holder_unique [of "[Call 0 ''d'', WriteDone 0, Call 1 ''d'']" 0 0, OF h h refl] h q a
  show ?thesis by simp
qed

text \<open>
  C3 (as stated) fails: the key is not normalized. \<open>d\<close> and \<open>d/.\<close> name the same
  directory, yet while one caller holds \<open>d\<close> the table has no entry for \<open>d/.\<close>, the
  second caller is not queued, its marker \<open>d/..lock\<close> is another file than
  \<open>d.lock\<close>, and both callers hold the lock for the one path at the same time.
\<close>

theorem lock_two_spellings_both_held:
  "resolve ''d'' = resolve ''d/.'' \<and>
   \<not> has_lock (table (lrun [Call 0 ''d'', WriteDone 0] linit)) ''d/.'' \<and>
   phase (lrun [Call 0 ''d'', WriteDone 0, Call 1 ''d/.'', WriteDone 1] linit) 0 = Holding \<and>
   phase (lrun [Call 0 ''d'', WriteDone 0, Call 1 ''d/.'', WriteDone 1] linit) 1 = Holding \<and>
   resolve (asked (lrun [Call 0 ''d'', WriteDone 0, Call 1 ''d/.'', WriteDone 1] linit) 0) =
     resolve (asked (lrun [Call 0 ''d'', WriteDone 0, Call 1 ''d/.'', WriteDone 1] linit) 1)"
  by (simp add: lrun_def lstep_def linit_def no_locks_def has_lock_def set_lock_def enqueue_def
      resolve_def norm_step_def lockFile_name_def)

text \<open>
  C4: a waiter whose timer fires is rejected with the lock-timeout error and leaves no
  entry in the queue. In the code the timer looks the queue up for \<open>resolve\<close>, while
  what was pushed is \<open>wrappedResolve\<close>: nothing is removed. Caller 0 holds \<open>p\<close>,
  caller 1 waits and times out; its closure is still queued afterwards.
\<close>

theorem lock_timeout_leaves_entry:
  "phase (lrun [Call 0 ''p'', WriteDone 0, Call 1 ''p'', TimerFires 1] linit) 1 =
     Rejected (Error None ''Lock timeout: p'') \<and>
   lockQueue (table (lrun [Call 0 ''p'', WriteDone 0, Call 1 ''p'', TimerFires 1] linit)) ''p'' =
     Some [WrappedResolve 1]"
  by (simp add: lrun_def lstep_def linit_def no_locks_def has_lock_def set_lock_def enqueue_def
      timer_splice_def)

section \<open>Claims about backup verification\<close>

lemma traverse_prefix: "q \<in> set (traverse n pre) \<Longrightarrow> strict_prefix pre q"
proof (induction n pre arbitrary: q rule: traverse.induct)
  case (2 es pre)
  from "2.prems" obtain e where e: "e \<in> set es"
    and q: "q \<in> set (case snd e of Dir ds \<Rightarrow> traverse (snd e) (pre @ [fst e]) | File c \<Rightarrow> [pre @ [fst e]])"
    by auto
  show ?case
  proof (cases "snd e")
    case (File c)
    with q show ?thesis by (auto simp: strict_prefix_def)
  next
    case (Dir ds)
    with q have "q \<in> set (traverse (snd e) (pre @ [fst e]))" by simp
    from "2.IH" [OF e Dir this] show ?thesis
      by (auto simp: strict_prefix_def prefix_def)
  qed
qed simp

lemma traverse_under: "q \<in> set (traverse n (pre @ [x])) \<Longrightarrow> prefix (pre @ [x]) q"
  using traverse_prefix [of q n "pre @ [x]"] by (simp add: strict_prefix_def)

lemma traverse_entry_under:
  "q \<in> set (case snd e of Dir ds \<Rightarrow> traverse (snd e) (pre @ [fst e]) | File c \<Rightarrow> [pre @ [fst e]])
   \<Longrightarrow> prefix (pre @ [fst e]) q"
  by (cases "snd e") (auto dest: traverse_under simp del: traverse.simps)

lemma prefix_snoc_disjoint: "prefix (pre @ [x]) q \<Longrightarrow> prefix (pre @ [y]) q \<Longrightarrow> x = y"
  by (auto simp: prefix_def append_eq_append_conv2 Cons_eq_append_conv)

lemma distinct_entries:
  "distinct (map fst es) \<Longrightarrow> (\<And>e. e \<in> set es \<Longrightarrow> distinct (f e)) \<Longrightarrow>
   (\<And>e q. e \<in> set es \<Longrightarrow> q \<in> set (f e) \<Longrightarrow> prefix (pre @ [fst e]) q) \<Longrightarrow>
   distinct (concat (map f es))"
proof (induction es)
  case (Cons a es)
  have "set (f a) \<inter> \<Union> (set ` f ` set es) = {}"
  proof (rule ccontr)
    assume "\<not> ?thesis"
    then obtain q e where "q \<in> set (f a)" "e \<in> set es" "q \<in> set (f e)" by auto
    then have "prefix (pre @ [fst a]) q" "prefix (pre @ [fst e]) q"
      using Cons.prems(3) [of a q] Cons.prems(3) [of e q] by auto
    then have "fst a = fst e" by (rule prefix_snoc_disjoint)
    with \<open>e \<in> set es\<close> Cons.prems(1) show False by force
  qed
  moreover have "distinct (concat (map f es))"
    using Cons by auto
  ultimately show ?case using Cons.prems(2) [of a] by simp
qed simp

lemma distinct_traverse: "wf_node n \<Longrightarrow> distinct (traverse n pre)"
proof (induction n pre rule: traverse.induct)
  case (2 es pre)
  show ?case
    unfolding traverse.simps
  proof (rule distinct_entries [where pre = pre])
    show "distinct (map fst es)" using "2.prems" by simp
  next
    fix e assume e: "e \<in> set es"
    show "distinct (case snd e of Dir ds \<Rightarrow> traverse (snd e) (pre @ [fst e]) | File c \<Rightarrow> [pre @ [fst e]])"
    proof (cases "snd e")
      case (Dir ds)
      moreover have "wf_node (snd e)" using "2.prems" e by (auto simp: list_all_iff)
      ultimately show ?thesis using "2.IH" [OF e Dir] by simp
    qed simp
  next
    fix e q
    assume "e \<in> set es"
      "q \<in> set (case snd e of Dir ds \<Rightarrow> traverse (snd e) (pre @ [fst e]) | File c \<Rightarrow> [pre @ [fst e]])"
    then show "prefix (pre @ [fst e]) q" by (auto dest: traverse_entry_under)
  qed
qed simp

lemma distinct_same_length_subset:
  assumes "distinct xs" "distinct ys"
  shows "(length xs = length ys \<and> set xs \<subseteq> set ys) \<longleftrightarrow> set xs = set ys"
proof
  assume h: "length xs = length ys \<and> set xs \<subseteq> set ys"
  with assms have "card (set xs) = card (set ys)"
    by (simp add: distinct_card)
  with h show "set xs = set ys"
    by (simp add: card_subset_eq)
next
  assume h: "set xs = set ys"
  with assms have "length xs = length ys"
    by (metis distinct_card)
  with h show "length xs = length ys \<and> set xs \<subseteq> set ys" by simp
qed

text \<open>
  C7: for a regular file, \<open>verifyBackup\<close> fails with the integrity error exactly when the
  SHA-256 digests of original and backup differ, hence (the digest taken to be free of
  collisions) whenever the contents differ at all; for a directory it succeeds exactly
  when both sides list the same set of relative file paths, whatever the files contain.
  The function is called directly, outside \<open>withRetry\<close>.
\<close>

theorem verifyBackup_decides:
  "(lookup_path (fs s) original = Some (File a) \<longrightarrow> lookup_path (fs s) backup = Some (File b) \<longrightarrow>
      fst (verifyBackup sha256 original backup s) =
        (if sha256 a = sha256 b then Inr () else Inl sha_mismatch) \<and>
      (inj sha256 \<longrightarrow> (fst (verifyBackup sha256 original backup s) = Inl sha_mismatch \<longleftrightarrow> a \<noteq> b))) \<and>
   (lookup_path (fs s) original = Some (Dir es) \<longrightarrow> lookup_path (fs s) backup = Some (Dir ds) \<longrightarrow>
    wf_node (Dir es) \<longrightarrow> wf_node (Dir ds) \<longrightarrow>
      fst (verifyBackup sha256 original backup s) =
        (if set (traverse (Dir es) []) = set (traverse (Dir ds) []) then Inr ()
         else Inl structure_mismatch))"
proof (intro conjI impI)
  assume "lookup_path (fs s) original = Some (File a)" "lookup_path (fs s) backup = Some (File b)"
  then show r: "fst (verifyBackup sha256 original backup s) =
        (if sha256 a = sha256 b then Inr () else Inl sha_mismatch)"
    by (simp add: verifyBackup_def stat_def hashFile_def)
  assume "inj sha256"
  then have "sha256 a = sha256 b \<longleftrightarrow> a = b"
    by (auto dest: injD)
  with r show "fst (verifyBackup sha256 original backup s) = Inl sha_mismatch \<longleftrightarrow> a \<noteq> b"
    by simp
next
  assume dirs: "lookup_path (fs s) original = Some (Dir es)" "lookup_path (fs s) backup = Some (Dir ds)"
    and wf: "wf_node (Dir es)" "wf_node (Dir ds)"
  let ?o = "traverse (Dir es) []" and ?b = "traverse (Dir ds) []"
  have "distinct ?o" "distinct ?b"
    using wf by (auto intro: distinct_traverse simp del: traverse.simps wf_node.simps)
  then have eq: "(length ?o = length ?b \<and> set ?o \<subseteq> set ?b) \<longleftrightarrow> set ?o = set ?b"
    by (rule distinct_same_length_subset)
  have "fst (verifyBackup sha256 original backup s) =
          (if length ?o \<noteq> length ?b \<or> \<not> list_all (\<lambda>f. f \<in> set ?b) ?o
           then Inl structure_mismatch else Inr ())"
    using dirs by (simp add: verifyBackup_def stat_def getAllFiles_def and_then_def del: traverse.simps)
  also have "\<dots> = (if set ?o = set ?b then Inr () else Inl structure_mismatch)"
    using eq by (auto simp: list_all_iff simp del: traverse.simps)
  finally show "fst (verifyBackup sha256 original backup s) =
        (if set ?o = set ?b then Inr () else Inl structure_mismatch)" .
qed

theorem verifyBackup_decides_witness:
  "fst (verifyBackup id [''a.txt''] [''copy.txt''] (demo_env demo_tree)) = Inl sha_mismatch \<and>
   fst (verifyBackup id [''a.txt''] [''a.txt''] (demo_env demo_tree)) = Inr () \<and>
   fst (verifyBackup id [''d''] [''d1''] (demo_env demo_tree)) = Inr () \<and>
   fst (verifyBackup id [''d''] [''d2''] (demo_env demo_tree)) = Inl structure_mismatch"
proof -
  let ?s = "demo_env demo_tree"
  have a: "lookup_path (fs ?s) [''a.txt''] = Some (File ''old'')"
    and c: "lookup_path (fs ?s) [''copy.txt''] = Some (File ''ole'')"
    and d: "lookup_path (fs ?s) [''d''] = Some (Dir [(''a'', File ''1''), (''b'', Dir [(''c'', File ''2'')])])"
    and d1: "lookup_path (fs ?s) [''d1''] = Some (Dir [(''b'', Dir [(''c'', File ''3'')]), (''a'', File ''4'')])"
    and d2: "lookup_path (fs ?s) [''d2''] = Some (Dir [(''a'', File ''1'')])"
    by (simp_all add: demo_env_def demo_tree_def)
  have i: "inj (id :: string \<Rightarrow> string)" by simp
  have "fst (verifyBackup id [''a.txt''] [''copy.txt''] ?s) = Inl sha_mismatch"
    using verifyBackup_decides [of ?s "[''a.txt'']" "''old''" "[''copy.txt'']" "''ole''" id] a c i
    by simp
  moreover have "fst (verifyBackup id [''a.txt''] [''a.txt''] ?s) = Inr ()"
    using verifyBackup_decides [of ?s "[''a.txt'']" "''old''" "[''a.txt'']" "''old''" id] a
    by simp
  moreover have "fst (verifyBackup id [''d''] [''d1''] ?s) = Inr ()"
    using verifyBackup_decides [of ?s "[''d'']" _ "[''d1'']" _ id] d d1
    by auto
  moreover have "fst (verifyBackup id [''d''] [''d2''] ?s) = Inl structure_mismatch"
    using verifyBackup_decides [of ?s "[''d'']" _ "[''d2'']" _ id] d d2
    by auto
  ultimately show ?thesis by simp
qed

section \<open>Claims about the transaction log: records\<close>


text \<open>
  C9: \<open>backup\<close> of a path that does not exist does nothing: no copy, no record, the
  environment (and with it the backup root) as before. A following \<open>write\<close> therefore
  appends only its Write record, or nothing when it fails, and undoing a Write record
  deletes the path.
\<close>

theorem backup_missing_is_noop:
  assumes "\<not> access p s"
  shows "tx_backup p (tx, s) = (Inr (), tx, s) \<and>
         (case tx_write p content (tx, s) of
            (Inl e, tx', s') \<Rightarrow> operations tx' = operations tx
          | (Inr u, tx', s') \<Rightarrow>
              operations tx' =
                operations tx @ [\<lparr>op_type = Write, op_path = p, op_backup = None\<rparr>]) \<and>
         lookup_path (fs (rollback_step \<lparr>op_type = Write, op_path = p, op_backup = None\<rparr> s2)) p = None"
proof -
  from assms have "p \<noteq> []"
    by (auto simp: access_def)
  then have "lookup_path (fs (rollback_step \<lparr>op_type = Write, op_path = p, op_backup = None\<rparr> s2)) p = None"
    by (simp add: rollback_step_def quietly_def fs_op_def rm_rf_def lookup_del_same)
  moreover from assms have "tx_backup p (tx, s) = (Inr (), tx, s)"
    by (simp add: tx_backup_def)
  ultimately show ?thesis
    by (auto simp: tx_write_def split: prod.splits sum.splits)
qed

theorem backup_missing_is_noop_witness:
  "\<not> access [''new.txt''] (demo_env demo_tree) \<and>
   tx_backup [''new.txt''] (demo_tx, demo_env demo_tree) = (Inr (), demo_tx, demo_env demo_tree)"
proof -
  have h: "\<not> access [''new.txt''] (demo_env demo_tree)"
    by (simp add: access_def demo_env_def demo_tree_def)
  from backup_missing_is_noop [OF h, of demo_tx] h show ?thesis by simp
qed

section \<open>Claims about atomicWrite\<close>



section \<open>Claims about the transaction log: backup before mutation\<close>

text \<open>
  C2 (as amended): a \<open>write\<close> or \<open>copy\<close> whose target exists, made between two calls
  of a transaction (no lock held, the backup root a directory that holds no name with a
  dot and no name still to be drawn, no lock file or temporary file of the target on
  disk, the target apart from the backup root), first copies the target to the
  random-named path \<open>backupDir/<hex>\<close> and pushes a Backup record: in the state \<open>s1\<close>
  that \<open>backup\<close> returns in, the copy and the target both hold what the target held.
  The mutation then runs from \<open>s1\<close>, and its Write or Copy record is pushed after the
  Backup record when it succeeds. The copy is not verified: in the whole call no digest
  is taken and no directory is listed.
\<close>

theorem write_backs_up_without_verifying:
  assumes sep: "separate_targets {target q} (backupDir tx)"
    and tidy: "tidy {target q} (backupDir tx) s"
    and ex: "lookup_path (fs s) (target q) = Some n"
  shows "\<exists>s1 r s'.
      tx_backup (target q) (tx, s) =
        (Inr (), tx\<lparr>operations := operations tx @
                      [backup_record (target q) (backupDir tx @ [rand s (drawn s)])]\<rparr>, s1) \<and>
      lookup_path (fs s1) (backupDir tx @ [rand s (drawn s)]) = Some n \<and>
      lookup_path (fs s1) (target q) = Some n \<and>
      mutate q s1 = (r, s') \<and>
      tx_request q (tx, s) =
        (r, tx\<lparr>operations := operations tx @
                   backup_record (target q) (backupDir tx @ [rand s (drawn s)]) #
                   (if r = Inr () then [record_of q] else [])\<rparr>, s') \<and>
      (\<exists>evs. trace s' = trace s @ evs \<and> list_all (\<lambda>e. \<not> is_check e) evs)"
proof -
  have p: "target q \<in> {target q}" by simp
  from sep_snoc [OF sep p] obtain D x where t: "target q = D @ [x]" by blast
  define b where "b = backupDir tx @ [rand s (drawn s)]"
  from tx_backup_existing [OF sep tidy p ex]
  obtain s1 where bk: "tx_backup (target q) (tx, s) =
        (Inr (), tx\<lparr>operations := operations tx @ [backup_record (target q) b]\<rparr>, s1)"
    and q1: "quiet s s1"
    and fr1: "unchanged_outside {b} {} (fs s) (fs s1)"
    and b1: "lookup_path (fs s1) b = Some n"
    unfolding b_def by blast
  have "apart b (target q)"
    unfolding b_def using sep_backup [OF sep p] by (rule apart_sym)
  then have P1: "lookup_path (fs s1) (target q) = Some n"
    using frame_lookup [OF fr1, of "target q"] ex by simp
  let ?T = "tempPath (D @ [x]) (rand s1 (drawn s1))"
  have "apart b ?T"
    unfolding b_def using sep_aux_backup [OF sep p, of ?T] by (simp add: t apart_sym)
  then have "lookup_path (fs s1) ?T = lookup_path (fs s) ?T"
    using frame_lookup [OF fr1, of ?T] by simp
  with tidy have fresh: "lookup_path (fs s1) ?T = None"
    by (simp add: tidy_def t)
  obtain r s' where m: "mutate q s1 = (r, s')"
    by (cases "mutate q s1") auto
  from mutate_summary [OF m t fresh] have "quiet s1 s'" by simp
  with q1 have "quiet s s'" by (rule quiet_trans)
  then have silent: "\<exists>evs. trace s' = trace s @ evs \<and> list_all (\<lambda>e. \<not> is_check e) evs"
    by (simp add: quiet_def)
  have "tx_request q (tx, s) =
        (r, tx\<lparr>operations := operations tx @ backup_record (target q) b #
                   (if r = Inr () then [record_of q] else [])\<rparr>, s')"
    unfolding tx_request_unfold bk using m by (cases r) simp_all
  with bk b1 P1 m silent show ?thesis
    unfolding b_def by blast
qed

theorem write_backs_up_without_verifying_witness:
  "\<exists>s1 r s'.
      tx_backup [''a.txt''] (demo_tx, demo_env demo_tree) =
        (Inr (), demo_tx\<lparr>operations := [backup_record [''a.txt''] [''tmp'', ''tx'', ''a'']]\<rparr>, s1) \<and>
      lookup_path (fs s1) [''tmp'', ''tx'', ''a''] = Some (File ''old'') \<and>
      lookup_path (fs s1) [''a.txt''] = Some (File ''old'') \<and>
      mutate (WriteReq [''a.txt''] ''new'') s1 = (r, s') \<and>
      (\<exists>evs. trace s' = evs \<and> list_all (\<lambda>e. \<not> is_check e) evs)"
proof -
  let ?q = "WriteReq [''a.txt''] ''new''"
  have sep: "separate_targets {target ?q} (backupDir demo_tx)"
    by (simp add: separate_targets_def aux_paths_def apart_def lockFile_def tempPath_def join_def
        dirname_def basename_def demo_tx_def)
  have tidy: "tidy {target ?q} (backupDir demo_tx) (demo_env demo_tree)"
    by (simp add: tidy_def aux_paths_def lockFile_def tempPath_def join_def dirname_def basename_def
        demo_tx_def demo_env_def demo_tree_def is_dir_def)
  have ex: "lookup_path (fs (demo_env demo_tree)) (target ?q) = Some (File ''old'')"
    by (simp add: demo_env_def demo_tree_def)
  from write_backs_up_without_verifying [OF sep tidy ex]
  obtain s1 r s' where
    "tx_backup [''a.txt''] (demo_tx, demo_env demo_tree) =
        (Inr (), demo_tx\<lparr>operations := [backup_record [''a.txt''] [''tmp'', ''tx'', ''a'']]\<rparr>, s1)"
    "lookup_path (fs s1) [''tmp'', ''tx'', ''a''] = Some (File ''old'')"
    "lookup_path (fs s1) [''a.txt''] = Some (File ''old'')"
    "mutate (WriteReq [''a.txt''] ''new'') s1 = (r, s')"
    "list_all (\<lambda>e. \<not> is_check e) (trace s')"
    by (auto simp: demo_tx_def demo_env_def)
  then show ?thesis by blast
qed

text \<open>
  C2 (as stated) fails: \<open>backup\<close> copies and records, and verifies nothing.
  \<open>write("a.txt", "new")\<close> on a disk where \<open>a.txt\<close> exists succeeds and replaces the
  file, and no digest was taken and no directory listed on the way.
\<close>

theorem write_proceeds_unverified:
  "lookup_path (fs (demo_env demo_tree)) [''a.txt''] = Some (File ''old'') \<and>
   (case tx_request (WriteReq [''a.txt''] ''new'') (demo_tx, demo_env demo_tree) of
      (r, tx', s') \<Rightarrow>
        r = Inr () \<and> lookup_path (fs s') [''a.txt''] = Some (File ''new'') \<and>
        \<not> list_ex is_check (trace s'))"
  by code_simp

section \<open>Claims about the transaction log: one backup for each call\<close>

text \<open>
  C8 (as amended): in a transaction whose targets keep out of each other's way (no target
  the root of the disk, two targets the same path or apart, all apart from the backup
  root, none at or below a lock file or temporary file of a target), started from a clean
  state and with random names that are pairwise different and hold no dot, a target that
  existed before has one Backup record for each \<open>write\<close> or \<open>copy\<close> call made on it,
  not one for the path, and each of its Write and Copy records stands right after a
  Backup record of it; so its first record is a Backup record.
\<close>

theorem every_call_on_existing_target_backs_up:
  assumes sep: "separate_targets (target ` set qs) (backupDir tx)"
    and hex: "hex_names (rand s)"
    and start: "clean_start (target ` set qs) tx s"
    and p: "p \<in> target ` set qs"
    and ex: "lookup_path (fs s) p \<noteq> None"
  shows "guarded p (operations (fst (tx_run qs (tx, s)))) \<and>
         length (backup_records p (operations (fst (tx_run qs (tx, s))))) =
           length (filter (\<lambda>q. target q = p) qs)"
proof -
  obtain tx' s' where run: "tx_run qs (tx, s) = (tx', s')"
    by (cases "tx_run qs (tx, s)") auto
  from start have nil: "operations tx = []" by (simp add: clean_start_def)
  from tx_run_records [OF sep p hex undoable_start [OF start] refl subset_refl ex run]
  show ?thesis by (simp add: run nil)
qed

theorem every_call_on_existing_target_backs_up_witness:
  "guarded [''a.txt'']
     (operations (fst (tx_run [WriteReq [''a.txt''] ''one'', CopyReq [''d''] [''e''],
                               WriteReq [''a.txt''] ''two'', CopyReq [''d2''] [''a.txt'']]
                        (demo_tx, demo_env demo_tree)))) \<and>
   length (backup_records [''a.txt'']
     (operations (fst (tx_run [WriteReq [''a.txt''] ''one'', CopyReq [''d''] [''e''],
                               WriteReq [''a.txt''] ''two'', CopyReq [''d2''] [''a.txt'']]
                        (demo_tx, demo_env demo_tree))))) = 3"
proof -
  let ?qs = "[WriteReq [''a.txt''] ''one'', CopyReq [''d''] [''e''],
              WriteReq [''a.txt''] ''two'', CopyReq [''d2''] [''a.txt'']]"
  have sep: "separate_targets (target ` set ?qs) (backupDir demo_tx)"
    by (simp add: separate_targets_def aux_paths_def apart_def lockFile_def tempPath_def join_def
        dirname_def basename_def demo_tx_def)
  have hex: "hex_names (rand (demo_env demo_tree))"
    by (simp add: hex_names_def demo_env_def inj_def)
  have start: "clean_start (target ` set ?qs) demo_tx (demo_env demo_tree)"
    by (simp add: clean_start_def aux_paths_def lockFile_def tempPath_def join_def dirname_def
        basename_def demo_tx_def demo_env_def demo_tree_def)
  have p: "[''a.txt''] \<in> target ` set ?qs" by simp
  have ex: "lookup_path (fs (demo_env demo_tree)) [''a.txt''] \<noteq> None"
    by (simp add: demo_env_def demo_tree_def)
  from every_call_on_existing_target_backs_up [OF sep hex start p ex]
  show ?thesis by simp
qed

text \<open>
  C8 (as stated) fails for a path written twice: \<open>backup\<close> does not look whether the
  path was backed up before. Two writes of \<open>a.txt\<close>, which existed, leave two Backup
  records for it.
\<close>

theorem two_writes_two_backup_records:
  "lookup_path (fs (demo_env demo_tree)) [''a.txt''] = Some (File ''old'') \<and>
   map op_type (operations (fst (tx_run [WriteReq [''a.txt''] ''one'', WriteReq [''a.txt''] ''two'']
                                  (demo_tx, demo_env demo_tree)))) = [Backup, Write, Backup, Write] \<and>
   length (backup_records [''a.txt'']
     (operations (fst (tx_run [WriteReq [''a.txt''] ''one'', WriteReq [''a.txt''] ''two'']
                        (demo_tx, demo_env demo_tree))))) = 2"
  by code_simp

section \<open>Claims about the transaction log: rollback\<close>




end
